theory Spec2Isabelle
  imports Main "HOL-Library.Word" "HOL-Library.Signed_Division"
begin

section \<open>The input system of chap02/input\_system/input.c\<close>

text \<open>
  The file keeps its whole state in static variables: the buffer \<open>Start_buf\<close>, pointers
  into it (\<open>End_buf\<close>, \<open>Next\<close>, \<open>sMark\<close>, \<open>eMark\<close>, \<open>pMark\<close>), line counters, the file
  descriptor, the saved terminator character, the end-of-file flag and the function-local
  static \<open>been_called\<close> of \<open>ii_advance\<close>. The model is one record of these variables
  that every function takes and returns.

  \<^item> A pointer into the buffer is its offset from \<open>Start_buf\<close>, an \<open>int\<close>; \<open>pMark\<close>,
    the only pointer that may be \<open>NULL\<close>, is an \<open>int option\<close>.
  \<^item> Memory is a total map from offsets to bytes. Offsets in \<open>[0, BUFSIZE)\<close> are the
    array; an access at any other offset is outside the array, where C gives it no
    meaning. Theorems that depend on the array's bounds state them.
  \<^item> \<open>int\<close> variables are mathematical integers: line numbers and counts stay far from
    the limits of a C \<open>int\<close> on any input that fits in memory. \<open>size_t\<close> values are
    naturals below \<open>2 ^ 64\<close>, with the conversions written out.
  \<^item> The operating system is part of the state: \<open>os_open\<close> gives the descriptor that
    \<open>open\<close> returns for a path (\<open>-1\<close> on failure), and \<open>os_data\<close> the bytes not yet read
    behind each descriptor (\<open>None\<close> for a descriptor on which \<open>read\<close> fails).
\<close>

type_synonym byte = "8 word"

definition STDIN :: int where "STDIN = 0"
definition MAXLOOK :: int where "MAXLOOK = 16"
definition MAXLEN :: int where "MAXLEN = 1024"
definition BUFSIZE :: int where "BUFSIZE = (3 * MAXLEN) + (2 * MAXLOOK)"

text \<open>\<open>END\<close> is \<open>&Start_buf[BUFSIZE]\<close>, as an offset. \<open>EOF\<close> is the value of \<open>stdio.h\<close>.\<close>

definition END :: int where "END = BUFSIZE"
definition EOF :: int where "EOF = - 1"

record istate =
  Start_buf :: "int \<Rightarrow> byte"
  End_buf :: int
  Next :: int
  sMark :: int
  eMark :: int
  pMark :: "int option"
  pLineno :: int
  pLength :: int
  Input_file :: int
  Lineno :: int
  Mline :: int
  Termchar :: int
  Eof_read :: bool
  been_called :: bool
  os_open :: "string \<Rightarrow> int"
  os_data :: "int \<Rightarrow> byte list option"

text \<open>The static initialisers, over a given operating system and buffer content.\<close>

definition init_state :: "(int \<Rightarrow> byte) \<Rightarrow> (string \<Rightarrow> int) \<Rightarrow> (int \<Rightarrow> byte list option) \<Rightarrow> istate" where
  "init_state mem opn dat =
     \<lparr> Start_buf = mem, End_buf = END, Next = END, sMark = END, eMark = END,
       pMark = None, pLineno = 0, pLength = 0, Input_file = STDIN, Lineno = 1,
       Mline = 1, Termchar = 0, Eof_read = False, been_called = False,
       os_open = opn, os_data = dat \<rparr>"

text \<open>
  \<open>ferr\<close> is declared in tools.h, which is not among the sources. Each of its three call
  sites is one constructor.
\<close>

datatype error = Flush_buffer_full | Fillbuf_bad_request | Cant_read_input

text \<open>
  Modelled from the spec: \<open>ferr\<close> (tools.h) reports a diagnostic and terminates the
  process; it never returns to its caller. A call is the error value, and nothing of
  the state survives it.
\<close>

definition ferr :: "error \<Rightarrow> error + 'a" where
  "ferr e = Inl e"

subsection \<open>Library and system calls\<close>

text \<open>
  \<open>size_t\<close> is unsigned and 64 bits wide. Converting a negative \<open>int\<close> wraps around;
  converting back to \<open>int\<close> keeps the low 32 bits as a two's complement value.
\<close>

definition size_t_of_int :: "int \<Rightarrow> nat" where
  "size_t_of_int k = nat (k mod 2 ^ 64)"

definition int_of_size_t :: "nat \<Rightarrow> int" where
  "int_of_size_t n = signed_take_bit 31 (int n)"

text \<open>
  \<open>memcpy(dst, src, n)\<close> copies byte by byte in ascending order. C defines the call only
  for regions that do not overlap; \<open>ii_flush\<close> calls it with \<open>dst \<le> src\<close>, where the
  ascending copy moves every byte before it is overwritten.
\<close>

definition memcpy :: "(int \<Rightarrow> byte) \<Rightarrow> int \<Rightarrow> int \<Rightarrow> nat \<Rightarrow> (int \<Rightarrow> byte)" where
  "memcpy mem dst src n = fold (\<lambda>i m. m(dst + int i := m (src + int i))) [0..<n] mem"

text \<open>
  \<open>read(fd, buf, need)\<close>: fails (the \<open>-1\<close> of the system call) on a descriptor without
  data behind it; otherwise delivers the next \<open>need\<close> bytes of the stream, or what is
  left of it, into memory at \<open>buf\<close> and returns their number.
\<close>

definition store_bytes :: "(int \<Rightarrow> byte) \<Rightarrow> int \<Rightarrow> byte list \<Rightarrow> (int \<Rightarrow> byte)" where
  "store_bytes mem at bs =
     (\<lambda>i. if at \<le> i \<and> i < at + int (length bs) then bs ! nat (i - at) else mem i)"

definition sys_read :: "int \<Rightarrow> int \<Rightarrow> nat \<Rightarrow> istate \<Rightarrow> (nat \<times> istate) option" where
  "sys_read fd buf need s =
     (case os_data s fd of
        None \<Rightarrow> None
      | Some bs \<Rightarrow>
          Some (length (take need bs),
                s\<lparr>Start_buf := store_bytes (Start_buf s) buf (take need bs),
                  os_data := (os_data s)(fd := Some (drop need bs))\<rparr>))"

definition sys_close :: "int \<Rightarrow> istate \<Rightarrow> istate" where
  "sys_close fd s = s\<lparr>os_data := (os_data s)(fd := None)\<rparr>"

subsection \<open>Macros\<close>

definition DANGER :: "istate \<Rightarrow> int" where
  "DANGER s = End_buf s - MAXLOOK"

definition NO_MORE_CHARS :: "istate \<Rightarrow> bool" where
  "NO_MORE_CHARS s = (Eof_read s \<and> Next s \<ge> End_buf s)"

subsection \<open>Initialisation\<close>

definition ii_newfile :: "string option \<Rightarrow> istate \<Rightarrow> int \<times> istate" where
  "ii_newfile filename s =
     (let fd = (case filename of None \<Rightarrow> STDIN | Some name \<Rightarrow> os_open s name)
      in if fd \<noteq> - 1 then
           let s1 = (if Input_file s \<noteq> STDIN then sys_close (Input_file s) s else s)
           in (fd, s1\<lparr>Input_file := fd, Eof_read := False, Next := END, sMark := END,
                      eMark := END, End_buf := END, Lineno := 1, Mline := 1\<rparr>)
         else (fd, s))"

subsection \<open>Access routines and marker movement\<close>

definition ii_text :: "istate \<Rightarrow> int" where "ii_text s = sMark s"
definition ii_length :: "istate \<Rightarrow> int" where "ii_length s = eMark s - sMark s"
definition ii_lineno :: "istate \<Rightarrow> int" where "ii_lineno s = Lineno s"
definition ii_ptext :: "istate \<Rightarrow> int option" where "ii_ptext s = pMark s"
definition ii_plength :: "istate \<Rightarrow> int" where "ii_plength s = pLength s"
definition ii_plineno :: "istate \<Rightarrow> int" where "ii_plineno s = pLineno s"

definition ii_mark_start :: "istate \<Rightarrow> int \<times> istate" where
  "ii_mark_start s = (Next s, s\<lparr>Mline := Lineno s, sMark := Next s, eMark := Next s\<rparr>)"

definition ii_mark_end :: "istate \<Rightarrow> int \<times> istate" where
  "ii_mark_end s = (Next s, s\<lparr>Mline := Lineno s, eMark := Next s\<rparr>)"

definition ii_move_start :: "istate \<Rightarrow> int option \<times> istate" where
  "ii_move_start s =
     (if sMark s \<ge> eMark s then (None, s)
      else (Some (sMark s + 1), s\<lparr>sMark := sMark s + 1\<rparr>))"

definition ii_to_mark :: "istate \<Rightarrow> int \<times> istate" where
  "ii_to_mark s = (eMark s, s\<lparr>Lineno := Mline s, Next := eMark s\<rparr>)"

definition ii_mark_prev :: "istate \<Rightarrow> int \<times> istate" where
  "ii_mark_prev s =
     (sMark s, s\<lparr>pMark := Some (sMark s), pLineno := Lineno s,
                 pLength := eMark s - sMark s\<rparr>)"

subsection \<open>Filling and flushing the buffer\<close>

text \<open>
  \<open>need\<close> is a \<open>size_t\<close>: the test \<open>need < 0\<close> compares naturals and never holds. \<open>got\<close>
  is a \<open>size_t\<close> too, so the failed \<open>read\<close> is the one that \<open>sys_read\<close> reports as \<open>None\<close>.
\<close>

definition ii_fillbuf :: "int \<Rightarrow> istate \<Rightarrow> error + int \<times> istate" where
  "ii_fillbuf starting_at s =
     (let need = size_t_of_int (((END - starting_at) sdiv MAXLEN) * MAXLEN)
      in if need < 0 then ferr Fillbuf_bad_request
         else if need = 0 then Inr (0, s)
         else case sys_read (Input_file s) starting_at need s of
                None \<Rightarrow> ferr Cant_read_input
              | Some (got, s1) \<Rightarrow>
                  let s2 = s1\<lparr>End_buf := starting_at + int got\<rparr>;
                      s3 = (if got = 0 then s2\<lparr>Eof_read := True\<rparr> else s2)
                  in Inr (int_of_size_t got, s3))"

definition ii_flush :: "bool \<Rightarrow> istate \<Rightarrow> error + int \<times> istate" where
  "ii_flush force s =
     (if NO_MORE_CHARS s then Inr (0, s)
      else if Eof_read s then Inr (1, s)
      else if Next s \<ge> DANGER s \<or> force then
        let left_edge = (case pMark s of None \<Rightarrow> sMark s | Some p \<Rightarrow> min (sMark s) p);
            shift_amount = left_edge
        in if shift_amount < MAXLEN \<and> force = False then Inr (- 1, s)
           else
             let (left_edge, s1) =
                   (if shift_amount < MAXLEN
                    then (let (le, sa) = ii_mark_start s; (pm, sb) = ii_mark_prev sa
                          in (le, sb))
                    else (left_edge, s));
                 shift_amount = left_edge;
                 copy_amount = End_buf s1 - left_edge;
                 s2 = s1\<lparr>Start_buf :=
                         memcpy (Start_buf s1) 0 left_edge (size_t_of_int copy_amount)\<rparr>
             in case ii_fillbuf (0 + copy_amount) s2 of
                  Inl e \<Rightarrow> Inl e
                | Inr (got, s3) \<Rightarrow>
                    if got = 0 then ferr Flush_buffer_full
                    else
                      let s4 = (case pMark s3 of
                                  None \<Rightarrow> s3
                                | Some p \<Rightarrow> s3\<lparr>pMark := Some (p - shift_amount)\<rparr>)
                      in Inr (1, s4\<lparr>sMark := sMark s4 - shift_amount,
                                    eMark := eMark s4 - shift_amount,
                                    Next := Next s4 - shift_amount\<rparr>)
      else Inr (1, s))"

subsection \<open>The advance function\<close>

definition seed_newline :: "istate \<Rightarrow> istate" where
  "seed_newline s =
     s\<lparr>Next := END - 1, sMark := END - 1, eMark := END - 1,
       Start_buf := (Start_buf s)(END - 1 := 10),
       Lineno := Lineno s - 1, Mline := Mline s - 1, been_called := True\<rparr>"

definition consume :: "istate \<Rightarrow> int \<times> istate" where
  "consume s =
     (let s1 = (if Start_buf s (Next s) = 10 then s\<lparr>Lineno := Lineno s + 1\<rparr> else s)
      in (uint (Start_buf s1 (Next s1)), s1\<lparr>Next := Next s1 + 1\<rparr>))"

definition ii_advance :: "istate \<Rightarrow> error + int \<times> istate" where
  "ii_advance s0 =
     (let s = (if \<not> been_called s0 then seed_newline s0 else s0)
      in if NO_MORE_CHARS s then Inr (0, s)
         else if Eof_read s then Inr (consume s)
         else case ii_flush False s of
                Inl e \<Rightarrow> Inl e
              | Inr (r, s1) \<Rightarrow> if r < 0 then Inr (- 1, s1) else Inr (consume s1))"

subsection \<open>Lookahead and pushback\<close>

definition ii_look :: "int \<Rightarrow> istate \<Rightarrow> int" where
  "ii_look n s =
     (let p = Next s + (n - 1)
      in if Eof_read s \<and> p \<ge> End_buf s then EOF
         else if p < 0 \<or> p \<ge> End_buf s then 0 else uint (Start_buf s p))"

function pusback_loop :: "int \<Rightarrow> istate \<Rightarrow> istate" where
  "pusback_loop n s =
     (if n - 1 \<ge> 0 \<and> Next s > sMark s then
        let s1 = s\<lparr>Next := Next s - 1\<rparr>;
            s2 = (if Start_buf s1 (Next s1) = 10 \<or> Start_buf s1 (Next s1) = 0
                  then s1\<lparr>Lineno := Lineno s1 - 1\<rparr> else s1)
        in pusback_loop (n - 1) s2
      else s)"
  by pat_completeness auto
termination
  by (relation "measure (\<lambda>(n, s). nat n)") auto

declare pusback_loop.simps [simp del]

definition ii_pusback :: "int \<Rightarrow> istate \<Rightarrow> int \<times> istate" where
  "ii_pusback n s =
     (let s1 = pusback_loop n s;
          s2 = (if Next s1 < eMark s1 then s1\<lparr>eMark := Next s1, Mline := Lineno s1\<rparr> else s1)
      in (if Next s2 > sMark s2 then 1 else 0, s2))"

subsection \<open>Support for null-terminated strings\<close>

definition ii_term :: "istate \<Rightarrow> istate" where
  "ii_term s =
     (let s1 = s\<lparr>Termchar := uint (Start_buf s (Next s))\<rparr>
      in s1\<lparr>Start_buf := (Start_buf s1)(Next s1 := 0)\<rparr>)"

definition ii_unterm :: "istate \<Rightarrow> istate" where
  "ii_unterm s =
     (if Termchar s \<noteq> 0
      then (let s1 = s\<lparr>Start_buf := (Start_buf s)(Next s := word_of_int (Termchar s))\<rparr>
            in s1\<lparr>Termchar := 0\<rparr>)
      else s)"

text \<open>
  \<open>ii_input\<close> and \<open>ii_uninput\<close> are declared \<open>int\<close> but have no \<open>return\<close> statement: the
  model returns the state alone.
\<close>

definition ii_input :: "istate \<Rightarrow> error + istate" where
  "ii_input s =
     (if Termchar s \<noteq> 0 then
        (case ii_advance (ii_unterm s) of
           Inl e \<Rightarrow> Inl e
         | Inr (ret, s1) \<Rightarrow> Inr (ii_term (snd (ii_mark_end s1))))
      else
        (case ii_advance s of
           Inl e \<Rightarrow> Inl e
         | Inr (ret, s1) \<Rightarrow> Inr (snd (ii_mark_end s1))))"

definition ii_uninput :: "byte \<Rightarrow> istate \<Rightarrow> istate" where
  "ii_uninput c s =
     (if Termchar s \<noteq> 0 then
        (let (r, s1) = ii_pusback 1 (ii_unterm s);
             s2 = (if r \<noteq> 0 then s1\<lparr>Start_buf := (Start_buf s1)(Next s1 := c)\<rparr> else s1)
         in ii_term s2)
      else
        (let (r, s1) = ii_pusback 1 s
         in if r \<noteq> 0 then s1\<lparr>Start_buf := (Start_buf s1)(Next s1 := c)\<rparr> else s1))"

definition ii_looahead :: "int \<Rightarrow> istate \<Rightarrow> int" where
  "ii_looahead n s = (if n = 1 \<and> Termchar s \<noteq> 0 then Termchar s else ii_look n s)"

definition ii_flushbuf :: "istate \<Rightarrow> error + int \<times> istate" where
  "ii_flushbuf s = ii_flush True (if Termchar s \<noteq> 0 then ii_unterm s else s)"



subsection \<open>Sequences of calls\<close>

text \<open>\<open>advances n\<close> is \<open>n\<close> calls of \<open>ii_advance\<close> in a row; it collects the values returned.\<close>

fun advances :: "nat \<Rightarrow> istate \<Rightarrow> error + int list \<times> istate" where
  "advances 0 s = Inr ([], s)"
| "advances (Suc n) s =
     (case ii_advance s of
        Inl e \<Rightarrow> Inl e
      | Inr (c, s1) \<Rightarrow>
          (case advances n s1 of
             Inl e \<Rightarrow> Inl e
           | Inr (cs, s2) \<Rightarrow> Inr (c # cs, s2)))"

text \<open>
  A client drives the input system through its functions. \<open>call\<close> names those that
  change the state, \<open>run_call\<close> gives the state a call leaves (or the fatal error that
  ends the process), and \<open>reachable\<close> collects the states of all call sequences from
  the static initialisers, the buffer zeroed as static storage is. \<open>ii_fillbuf\<close> is
  given a pointer into the buffer or one past its end; a call with any other pointer
  writes outside the array and is left out.
\<close>

datatype call =
    Newfile "string option" | Mark_start | Mark_end | Move_start | To_mark | Mark_prev
  | Advance | Flush bool | Fillbuf int | Pusback int | Term | Unterm | Input | Uninput byte
  | Flushbuf

fun run_call :: "call \<Rightarrow> istate \<Rightarrow> error + istate" where
  "run_call (Newfile filename) s = Inr (snd (ii_newfile filename s))"
| "run_call Mark_start s = Inr (snd (ii_mark_start s))"
| "run_call Mark_end s = Inr (snd (ii_mark_end s))"
| "run_call Move_start s = Inr (snd (ii_move_start s))"
| "run_call To_mark s = Inr (snd (ii_to_mark s))"
| "run_call Mark_prev s = Inr (snd (ii_mark_prev s))"
| "run_call Advance s = map_sum id snd (ii_advance s)"
| "run_call (Flush force) s = map_sum id snd (ii_flush force s)"
| "run_call (Fillbuf starting_at) s =
     (if 0 \<le> starting_at \<and> starting_at \<le> END
      then map_sum id snd (ii_fillbuf starting_at s) else Inr s)"
| "run_call (Pusback n) s = Inr (snd (ii_pusback n s))"
| "run_call Term s = Inr (ii_term s)"
| "run_call Unterm s = Inr (ii_unterm s)"
| "run_call Input s = ii_input s"
| "run_call (Uninput c) s = Inr (ii_uninput c s)"
| "run_call Flushbuf s = map_sum id snd (ii_flushbuf s)"

inductive reachable :: "istate \<Rightarrow> bool" where
  initial: "reachable (init_state (\<lambda>i. 0) opn dat)"
| after_call: "reachable s \<Longrightarrow> run_call c s = Inr s' \<Longrightarrow> reachable s'"

section \<open>Notions used in the statements\<close>

text \<open>
  The left edge of \<open>ii_flush\<close>: the smaller of \<open>sMark\<close> and \<open>pMark\<close>, or \<open>sMark\<close> alone
  while \<open>pMark\<close> is \<open>NULL\<close>.
\<close>

definition left_edge :: "istate \<Rightarrow> int" where
  "left_edge s = (case pMark s of None \<Rightarrow> sMark s | Some p \<Rightarrow> min (sMark s) p)"

text \<open>
  The amount by which a flush that compacts shifts the buffer: the left edge, or the
  cursor when a forced flush finds the left edge closer than \<open>MAXLEN\<close> to the start of
  the buffer and gives the marks up.
\<close>

definition shift_of :: "bool \<Rightarrow> istate \<Rightarrow> int" where
  "shift_of force s = (if force \<and> left_edge s < MAXLEN then Next s else left_edge s)"

text \<open>The pointer adjustments at the end of \<open>ii_flush\<close>, as one update.\<close>

definition rebase :: "int \<Rightarrow> istate \<Rightarrow> istate" where
  "rebase d s = s\<lparr>pMark := map_option (\<lambda>p. p - d) (pMark s), sMark := sMark s - d,
                  eMark := eMark s - d, Next := Next s - d\<rparr>"

text \<open>\<open>ii_mark_start\<close> followed by \<open>ii_mark_prev\<close>, as the forced flush calls them.\<close>

definition reset_marks :: "istate \<Rightarrow> istate" where
  "reset_marks s = s\<lparr>Mline := Lineno s, sMark := Next s, eMark := Next s, pMark := Some (Next s),
     pLineno := Lineno s, pLength := 0\<rparr>"

text \<open>The second half of \<open>ii_flush\<close>: copy down, refill, adjust the pointers.\<close>

definition compact :: "int \<Rightarrow> istate \<Rightarrow> error + int \<times> istate" where
  "compact d s1 =
     (case ii_fillbuf (End_buf s1 - d)
             (s1\<lparr>Start_buf := memcpy (Start_buf s1) 0 d (size_t_of_int (End_buf s1 - d))\<rparr>) of
        Inl e \<Rightarrow> Inl e
      | Inr (got, s3) \<Rightarrow> if got = 0 then ferr Flush_buffer_full else Inr (1, rebase d s3))"

text \<open>
  The invariant of the marks: they lie in the buffer, in order, at or before the
  cursor, and the data ends within the buffer. Every reachable state has it
  (\<open>reachable_marks_ok\<close> below), and so has the state in which the first \<open>ii_advance\<close>
  calls \<open>ii_flush\<close> (\<open>seed_marks_ok\<close>).
\<close>

definition marks_ok :: "istate \<Rightarrow> bool" where
  "marks_ok s = (0 \<le> left_edge s \<and> sMark s \<le> eMark s \<and> eMark s \<le> Next s \<and> End_buf s \<le> END)"

text \<open>
  The invariant of the cursor on top of it: the cursor does not lie beyond the data.
  \<open>ii_advance\<close> keeps it; a call of \<open>ii_fillbuf\<close> or \<open>ii_flush\<close> by the client before the
  first \<open>ii_advance\<close> can break it.
\<close>

definition buffer_ok :: "istate \<Rightarrow> bool" where
  "buffer_ok s = (0 \<le> left_edge s \<and> sMark s \<le> eMark s \<and> eMark s \<le> Next s
                  \<and> Next s \<le> End_buf s \<and> End_buf s \<le> END)"

text \<open>
  \<open>slid d s s'\<close>: from \<open>s\<close> to \<open>s'\<close> the buffer has moved left by \<open>d\<close>, taking the marks
  and every byte between the left edge and the end of the data along.
\<close>

definition slid :: "int \<Rightarrow> istate \<Rightarrow> istate \<Rightarrow> bool" where
  "slid d s s' =
     (0 \<le> d \<and> d \<le> left_edge s \<and> sMark s' = sMark s - d \<and> eMark s' = eMark s - d
      \<and> pMark s' = map_option (\<lambda>p. p - d) (pMark s)
      \<and> (\<forall>i. d \<le> i \<and> i < End_buf s \<longrightarrow> Start_buf s' (i - d) = Start_buf s i)
      \<and> End_buf s - d \<le> End_buf s' \<and> End_buf s' \<le> END
      \<and> been_called s' = been_called s)"

text \<open>
  The \<open>k\<close> bytes before the cursor, in buffer order: those \<open>ii_pusback\<close> moves back over
  when it retreats by \<open>k\<close>. \<open>line_breaks\<close> counts the bytes for which \<open>ii_pusback\<close>
  decrements \<open>Lineno\<close>: newline and zero.
\<close>

definition crossed :: "istate \<Rightarrow> int \<Rightarrow> byte list" where
  "crossed s k = map (\<lambda>j. Start_buf s (Next s - k + int j)) [0..<nat k]"

definition line_breaks :: "byte list \<Rightarrow> int" where
  "line_breaks bs = int (length (filter (\<lambda>b. b = 10 \<or> b = 0) bs))"

subsection \<open>Concrete states\<close>

text \<open>
  A fresh process with the bytes \<open>bs\<close> on standard input and one file, \<open>next.c\<close>, that
  opens as descriptor 3 and holds the three bytes \<open>xy\<close> and newline.
\<close>

definition fresh_state :: "byte list \<Rightarrow> istate" where
  "fresh_state bs =
     init_state (\<lambda>i. 0) (\<lambda>name. if name = ''next.c'' then 3 else - 1)
       ((\<lambda>fd. None)(3 := Some [120, 121, 10], 0 := Some bs))"

text \<open>The stream \<open>ab\<close>, newline, \<open>cd\<close>, with no newline at the end.\<close>

definition short_stream :: "byte list" where
  "short_stream = [97, 98, 10, 99, 100]"

text \<open>Twenty bytes that begin with a zero byte and a newline.\<close>

definition null_stream :: "byte list" where
  "null_stream = [0, 10] @ replicate 18 97"

text \<open>The state in which the first \<open>ii_advance\<close> of a process calls \<open>ii_flush\<close>.\<close>

definition seeded_state :: istate where
  "seeded_state = seed_newline (fresh_state short_stream)"

text \<open>
  A state in the middle of a stream, with both marks set and two bytes left to read,
  as it arises when \<open>read\<close> delivers less than it was asked for.
\<close>

definition midway_state :: istate where
  "midway_state =
     \<lparr> Start_buf = (\<lambda>i. 0)(0 := 10, 1 := 97, 2 := 98, 3 := 10, 4 := 99),
       End_buf = 5, Next = 3, sMark = 1, eMark = 2,
       pMark = Some 0, pLineno = 1, pLength = 1, Input_file = 0, Lineno = 1,
       Mline = 1, Termchar = 0, Eof_read = False, been_called = True,
       os_open = (\<lambda>name. - 1), os_data = (\<lambda>fd. None)(0 := Some [100, 101]) \<rparr>"

text \<open>The state after the first \<open>ii_advance\<close> on \<open>short_stream\<close> (\<open>short_state_reached\<close>).\<close>

definition short_state :: istate where
  "short_state =
     \<lparr> Start_buf = store_bytes ((\<lambda>i. 0)(3103 := 10, 0 := 10)) 1 short_stream,
       End_buf = 6, Next = 1, sMark = 0, eMark = 0,
       pMark = None, pLineno = 0, pLength = 0, Input_file = 0, Lineno = 1,
       Mline = 0, Termchar = 0, Eof_read = False, been_called = True,
       os_open = (\<lambda>name. if name = ''next.c'' then 3 else - 1),
       os_data = (\<lambda>fd. None)(3 := Some [120, 121, 10], 0 := Some []) \<rparr>"

text \<open>The state after three calls of \<open>ii_advance\<close> on \<open>null_stream\<close> (\<open>null_state_reached\<close>).\<close>

definition null_state :: istate where
  "null_state =
     \<lparr> Start_buf = store_bytes ((\<lambda>i. 0)(3103 := 10, 0 := 10)) 1 null_stream,
       End_buf = 21, Next = 3, sMark = 0, eMark = 0,
       pMark = None, pLineno = 0, pLength = 0, Input_file = 0, Lineno = 2,
       Mline = 0, Termchar = 0, Eof_read = False, been_called = True,
       os_open = (\<lambda>name. if name = ''next.c'' then 3 else - 1),
       os_data = (\<lambda>fd. None)(3 := Some [120, 121, 10], 0 := Some []) \<rparr>"

text \<open>
  \<open>short_state\<close> after a call of \<open>ii_fillbuf\<close> that found the stream exhausted and five
  calls of \<open>ii_advance\<close> that consumed what was buffered (\<open>drained_state_reached\<close>).
\<close>

definition drained_state :: istate where
  "drained_state = short_state\<lparr>Next := 6, Lineno := 2, Eof_read := True\<rparr>"

text \<open>\<open>short_state\<close> after \<open>ii_mark_prev\<close> and \<open>ii_term\<close>.\<close>

definition marked_state :: istate where
  "marked_state = ii_term (snd (ii_mark_prev short_state))"

text \<open>\<open>short_state\<close> after switching to \<open>next.c\<close>.\<close>

definition reopened_state :: istate where
  "reopened_state = snd (ii_newfile (Some ''next.c'') short_state)"

text \<open>\<open>short_state\<close> after \<open>ii_mark_prev\<close> and then switching to \<open>next.c\<close>.\<close>

definition stale_state :: istate where
  "stale_state = snd (ii_newfile (Some ''next.c'') (snd (ii_mark_prev short_state)))"

section \<open>Basic facts\<close>

lemmas const_defs = END_def BUFSIZE_def MAXLEN_def MAXLOOK_def STDIN_def EOF_def

lemma END_val: "END = 3104"
  by (simp add: END_def BUFSIZE_def MAXLEN_def MAXLOOK_def)

subsection \<open>Bytes and sizes\<close>

lemma uint_eq_10: "(uint (w :: byte) = 10) = (w = 10)"
proof -
  have "(w = 10) = (uint w = uint (10 :: byte))" by (rule word_uint_eq_iff)
  then show ?thesis by simp
qed

lemma uint_eq_0: "(uint (w :: byte) = 0) = (w = 0)"
proof -
  have "(w = 0) = (uint w = uint (0 :: byte))" by (rule word_uint_eq_iff)
  then show ?thesis by simp
qed

lemma uint_byte_range: "0 \<le> uint (w :: byte) \<and> uint w \<le> 255"
  using uint_lt2p[of w] by simp

lemma size_t_of_int_id: "0 \<le> k \<Longrightarrow> k < 2 ^ 64 \<Longrightarrow> int (size_t_of_int k) = k"
  by (simp add: size_t_of_int_def)

lemma int_of_size_t_small: "n < 2 ^ 31 \<Longrightarrow> int_of_size_t n = int n"
proof -
  have "- (2 ^ 31) \<le> int n" "int n < 2 ^ 31" if "n < 2 ^ 31"
    using that by simp_all
  then show "n < 2 ^ 31 \<Longrightarrow> int_of_size_t n = int n"
    unfolding int_of_size_t_def by (rule signed_take_bit_int_eq_self)
qed

lemma need_le:
  assumes "a \<le> END"
  shows "int (size_t_of_int (((END - a) sdiv MAXLEN) * MAXLEN)) \<le> END - a"
proof -
  let ?k = "(END - a) div MAXLEN * MAXLEN"
  have sd: "(END - a) sdiv MAXLEN = (END - a) div MAXLEN"
    using assms by (simp add: signed_divide_int_def MAXLEN_def sgn_if)
  have k: "0 \<le> ?k" "?k \<le> END - a"
    using assms by (simp_all add: MAXLEN_def)
  have "?k mod 2 ^ 64 \<le> ?k"
    using k(1) by (rule zmod_le_nonneg_dividend)
  then show ?thesis
    unfolding sd using k by (simp add: size_t_of_int_def)
qed

subsection \<open>Copying and reading\<close>

lemma memcpy_Suc:
  "memcpy mem dst src (Suc n) =
     (memcpy mem dst src n)(dst + int n := memcpy mem dst src n (src + int n))"
  by (simp add: memcpy_def)

lemma memcpy_block:
  "dst \<le> src \<Longrightarrow>
   memcpy mem dst src n i = (if dst \<le> i \<and> i < dst + int n then mem (src + (i - dst)) else mem i)"
proof (induction n arbitrary: i)
  case 0
  then show ?case by (auto simp: memcpy_def)
next
  case (Suc n)
  have far: "memcpy mem dst src n (src + int n) = mem (src + int n)"
    using Suc.prems by (simp add: Suc.IH)
  show ?case
    using Suc.prems by (auto simp: memcpy_Suc far Suc.IH)
qed

lemma store_bytes_apply:
  "store_bytes mem at bs i =
     (if at \<le> i \<and> i < at + int (length bs) then bs ! nat (i - at) else mem i)"
  by (simp add: store_bytes_def)

lemma store_bytes_Nil: "store_bytes mem at [] = mem"
  by (rule ext) (auto simp add: store_bytes_def)

text \<open>What a returning \<open>ii_fillbuf\<close> leaves alone, and what it changes.\<close>

lemma ii_fillbuf_frame:
  assumes "ii_fillbuf a s = Inr (got, s')"
  shows "Next s' = Next s" "sMark s' = sMark s" "eMark s' = eMark s" "pMark s' = pMark s"
    "Lineno s' = Lineno s" "Mline s' = Mline s" "pLineno s' = pLineno s" "pLength s' = pLength s"
    "Termchar s' = Termchar s" "been_called s' = been_called s" "Input_file s' = Input_file s"
    "os_open s' = os_open s"
  using assms
  by (auto simp: ii_fillbuf_def sys_read_def ferr_def Let_def split: if_splits option.splits)

lemma ii_fillbuf_below:
  assumes "ii_fillbuf a s = Inr (got, s')" "i < a"
  shows "Start_buf s' i = Start_buf s i"
  using assms
  by (auto simp: ii_fillbuf_def sys_read_def ferr_def Let_def store_bytes_def split: if_splits option.splits)

lemma ii_fillbuf_Inr:
  assumes "ii_fillbuf a s = Inr (got, s')"
  shows "(got = 0 \<and> s' = s) \<or>
         (\<exists>n. n \<le> size_t_of_int (((END - a) sdiv MAXLEN) * MAXLEN) \<and> got = int_of_size_t n
              \<and> End_buf s' = a + int n \<and> Eof_read s' = (n = 0 \<or> Eof_read s))"
proof (cases "os_data s (Input_file s)")
  case None
  then show ?thesis
    using assms
    by (simp add: ii_fillbuf_def sys_read_def ferr_def Let_def split: if_splits)
next
  case (Some bs)
  let ?need = "size_t_of_int (((END - a) sdiv MAXLEN) * MAXLEN)"
  show ?thesis
  proof (cases "?need = 0")
    case True
    then show ?thesis using assms by (simp add: ii_fillbuf_def Let_def)
  next
    case False
    let ?n = "length (take ?need bs)"
    have bound: "?n \<le> ?need" by simp
    have run: "Inr (int_of_size_t ?n,
                 (if ?n = 0
                  then s\<lparr>Start_buf := store_bytes (Start_buf s) a (take ?need bs),
                          os_data := (os_data s)(Input_file s := Some (drop ?need bs)),
                          End_buf := a + int ?n, Eof_read := True\<rparr>
                  else s\<lparr>Start_buf := store_bytes (Start_buf s) a (take ?need bs),
                          os_data := (os_data s)(Input_file s := Some (drop ?need bs)),
                          End_buf := a + int ?n\<rparr>)) = Inr (got, s')"
      using assms Some False
      by (simp add: ii_fillbuf_def sys_read_def Let_def del: length_take)
    have "?n \<le> ?need \<and> got = int_of_size_t ?n \<and> End_buf s' = a + int ?n
          \<and> Eof_read s' = (?n = 0 \<or> Eof_read s)"
    proof (cases "?n = 0")
      case True
      then show ?thesis using run bound by (auto simp del: length_take)
    next
      case False
      then show ?thesis using run bound by (auto simp del: length_take)
    qed
    then show ?thesis by blast
  qed
qed

lemma ii_fillbuf_read:
  assumes "ii_fillbuf a s = Inr (got, s')" and "got \<noteq> 0" and "0 \<le> a" and "a \<le> END"
  shows "a < End_buf s'" "End_buf s' \<le> END" "Eof_read s' = Eof_read s"
proof -
  let ?need = "size_t_of_int (((END - a) sdiv MAXLEN) * MAXLEN)"
  from ii_fillbuf_Inr[OF assms(1)] assms(2) obtain n where
    s': "n \<le> ?need" "got = int_of_size_t n" "End_buf s' = a + int n"
      "Eof_read s' = (n = 0 \<or> Eof_read s)"
    by blast
  have le: "int n \<le> END - a"
    using need_le[OF assms(4)] s'(1) by simp
  then have "n < 2 ^ 31"
    using assms(3) by (simp add: END_val)
  then have "got = int n"
    using s'(2) by (simp add: int_of_size_t_small)
  then have pos: "0 < n"
    using assms(2) by simp
  show "a < End_buf s'" using pos s'(3) by simp
  show "End_buf s' \<le> END" using le s'(3) by simp
  show "Eof_read s' = Eof_read s" using pos s'(4) by simp
qed

lemma ii_fillbuf_End:
  assumes "ii_fillbuf a s = Inr (got, s')" and "a \<le> END" and "End_buf s \<le> END"
  shows "End_buf s' \<le> END"
  using ii_fillbuf_Inr[OF assms(1)] need_le[OF assms(2)] assms(3) by auto

lemma ii_fillbuf_first_byte:
  assumes "os_data s (Input_file s) = Some (b # bs)" and "0 \<le> a" and "a \<le> END - MAXLEN"
  shows "\<exists>got s'. ii_fillbuf a s = Inr (got, s') \<and> got \<noteq> 0 \<and> Start_buf s' a = b"
proof -
  let ?need = "size_t_of_int (((END - a) sdiv MAXLEN) * MAXLEN)"
  have sd: "(END - a) sdiv MAXLEN = (END - a) div MAXLEN"
    using assms(2,3) by (simp add: signed_divide_int_def MAXLEN_def sgn_if END_val)
  have "1 \<le> (END - a) div MAXLEN"
    using assms(3) by (simp add: MAXLEN_def END_val pos_le_divide_eq zdiv_mono1 pos_imp_zdiv_pos_iff)
  then have "MAXLEN \<le> (END - a) div MAXLEN * MAXLEN"
    by (simp add: MAXLEN_def)
  moreover have "(END - a) div MAXLEN * MAXLEN \<le> END - a"
    by (simp add: MAXLEN_def)
  ultimately have "0 < (END - a) div MAXLEN * MAXLEN" "(END - a) div MAXLEN * MAXLEN < 2 ^ 64"
    using assms(2) by (simp_all add: MAXLEN_def END_val)
  then have pos: "0 < ?need"
    unfolding sd by (simp add: size_t_of_int_def)
  have nb: "int ?need \<le> END - a"
    using need_le[of a] assms(3) by (simp add: MAXLEN_def)
  let ?chunk = "take ?need (b # bs)"
  have chunk: "?chunk = b # take (?need - 1) bs"
    using pos by (simp add: take_Cons')
  have l1: "length ?chunk = Suc (length (take (?need - 1) bs))"
    by (simp only: chunk length_Cons)
  have "length (take (?need - 1) bs) \<le> ?need - 1"
    by simp
  then have l2: "length ?chunk \<le> ?need"
    using pos l1 by linarith
  have "int (length ?chunk) \<le> END - a"
    using l2 nb by linarith
  then have len: "0 < length ?chunk" "length ?chunk < 2 ^ 31"
    using l1 assms(2) by (simp_all add: END_val del: length_take)
  have got: "int_of_size_t (length ?chunk) \<noteq> 0"
    using len by (simp add: int_of_size_t_small del: length_take)
  have first: "store_bytes (Start_buf s) a ?chunk a = b"
    unfolding chunk by (simp add: store_bytes_def)
  show ?thesis
    using pos assms(1) got first len(1)
    by (simp add: ii_fillbuf_def sys_read_def Let_def del: length_take)
qed

subsection \<open>The flush\<close>

lemma left_edge_le: "left_edge s \<le> sMark s"
  by (simp add: left_edge_def split: option.splits)

lemma rebase_alt:
  "(let s4 = (case pMark s3 of None \<Rightarrow> s3 | Some p \<Rightarrow> s3\<lparr>pMark := Some (p - d)\<rparr>)
    in Inr (1, s4\<lparr>sMark := sMark s4 - d, eMark := eMark s4 - d, Next := Next s4 - d\<rparr>))
   = (Inr (1, rebase d s3) :: error + int \<times> istate)"
  by (simp add: rebase_def split: option.splits)

lemma ii_flush_unfold:
  "ii_flush force s =
     (if NO_MORE_CHARS s then Inr (0, s)
      else if Eof_read s then Inr (1, s)
      else if Next s \<ge> DANGER s \<or> force then
        (if left_edge s < MAXLEN \<and> \<not> force then Inr (- 1, s)
         else compact (shift_of force s) (if left_edge s < MAXLEN then reset_marks s else s))
      else Inr (1, s))"
proof (cases "left_edge s < MAXLEN")
  case True
  then show ?thesis
    unfolding ii_flush_def
    apply (simp only: rebase_alt)
    apply (simp add: Let_def compact_def left_edge_def shift_of_def ii_mark_start_def ii_mark_prev_def reset_marks_def ferr_def)
    done
next
  case False
  then show ?thesis
    unfolding ii_flush_def
    apply (simp only: rebase_alt)
    apply (simp add: Let_def compact_def left_edge_def shift_of_def ferr_def)
    done
qed

lemma compact_Inr:
  assumes "compact d s1 = Inr (r, s')"
  shows "r = 1" "Next s' = Next s1 - d" "sMark s' = sMark s1 - d" "eMark s' = eMark s1 - d"
    "pMark s' = map_option (\<lambda>p. p - d) (pMark s1)"
    "Lineno s' = Lineno s1" "Mline s' = Mline s1" "pLineno s' = pLineno s1"
    "pLength s' = pLength s1" "Termchar s' = Termchar s1" "been_called s' = been_called s1"
    "Input_file s' = Input_file s1" "os_open s' = os_open s1"
  using assms ii_fillbuf_frame[of "End_buf s1 - d" "s1\<lparr>Start_buf := memcpy (Start_buf s1) 0 d (size_t_of_int (End_buf s1 - d))\<rparr>"]
  by (auto simp: compact_def rebase_def ferr_def split: sum.splits if_splits)

lemma compact_bytes:
  assumes "compact d s1 = Inr (r, s')" "0 \<le> d" "End_buf s1 \<le> END" "d \<le> i" "i < End_buf s1"
  shows "Start_buf s' (i - d) = Start_buf s1 i"
proof -
  let ?s2 = "s1\<lparr>Start_buf := memcpy (Start_buf s1) 0 d (size_t_of_int (End_buf s1 - d))\<rparr>"
  from assms(1) obtain got s3 where f: "ii_fillbuf (End_buf s1 - d) ?s2 = Inr (got, s3)"
    and s': "s' = rebase d s3"
    by (auto simp: compact_def ferr_def split: sum.splits if_splits)
  have "Start_buf s3 (i - d) = Start_buf ?s2 (i - d)"
    using ii_fillbuf_below[OF f, of "i - d"] assms by simp
  moreover have "int (size_t_of_int (End_buf s1 - d)) = End_buf s1 - d"
    using assms by (intro size_t_of_int_id) (auto simp: END_val)
  ultimately show ?thesis
    using assms by (simp add: s' rebase_def memcpy_block)
qed

lemma compact_End:
  assumes "compact d s1 = Inr (r, s')" and "0 \<le> End_buf s1 - d" and "End_buf s1 - d \<le> END"
  shows "End_buf s1 - d < End_buf s'" "End_buf s' \<le> END" "Eof_read s' = Eof_read s1"
proof -
  let ?s2 = "s1\<lparr>Start_buf := memcpy (Start_buf s1) 0 d (size_t_of_int (End_buf s1 - d))\<rparr>"
  from assms(1) obtain got s3 where f: "ii_fillbuf (End_buf s1 - d) ?s2 = Inr (got, s3)"
    and g: "got \<noteq> 0" and s': "s' = rebase d s3"
    by (auto simp: compact_def ferr_def split: sum.splits if_splits)
  note r = ii_fillbuf_read[OF f g assms(2,3)]
  show "End_buf s1 - d < End_buf s'" using r(1) by (simp add: s' rebase_def)
  show "End_buf s' \<le> END" using r(2) by (simp add: s' rebase_def)
  show "Eof_read s' = Eof_read s1" using r(3) by (simp add: s' rebase_def)
qed

lemma compact_End_ge:
  assumes "compact d s1 = Inr (r, s')"
  shows "End_buf s1 - d \<le> End_buf s'"
proof -
  let ?s2 = "s1\<lparr>Start_buf := memcpy (Start_buf s1) 0 d (size_t_of_int (End_buf s1 - d))\<rparr>"
  from assms obtain got s3 where f: "ii_fillbuf (End_buf s1 - d) ?s2 = Inr (got, s3)"
    and g: "got \<noteq> 0" and s': "s' = rebase d s3"
    by (auto simp: compact_def ferr_def split: sum.splits if_splits)
  from ii_fillbuf_Inr[OF f] g obtain n where "End_buf s3 = End_buf s1 - d + int n"
    by auto
  then show ?thesis by (simp add: s' rebase_def)
qed

text \<open>
  After a flush that returns, the data ends no further left than it did, measured
  against the distance the cursor has moved.
\<close>

lemma flush_End_ge:
  assumes "ii_flush force s = Inr (r, s')"
  shows "End_buf s - (Next s - Next s') \<le> End_buf s'"
proof (cases "\<not> Eof_read s \<and> (DANGER s \<le> Next s \<or> force) \<and> (force \<or> MAXLEN \<le> left_edge s)")
  case False
  then have "s' = s"
    using assms by (simp add: ii_flush_unfold split: if_splits)
  then show ?thesis by simp
next
  case True
  let ?d = "shift_of force s"
  let ?s1 = "if left_edge s < MAXLEN then reset_marks s else s"
  have ne: "\<not> NO_MORE_CHARS s"
    using True by (simp add: NO_MORE_CHARS_def)
  from True ne assms have c: "compact ?d ?s1 = Inr (r, s')"
    by (simp add: ii_flush_unfold split: if_splits)
  have "Next s - Next s' = ?d"
    using compact_Inr(2)[OF c] by (simp add: reset_marks_def)
  moreover have "End_buf ?s1 = End_buf s"
    by (simp add: reset_marks_def)
  ultimately show ?thesis
    using compact_End_ge[OF c] by simp
qed

lemma ii_flush_refused:
  assumes "ii_flush force s = Inr (r, s')" and "r < 0"
  shows "s' = s" "r = - 1"
proof -
  have "compact d s1 \<noteq> Inr (r, s')" for d s1
    using compact_Inr(1)[of d s1 r s'] assms(2) by auto
  then show "s' = s" "r = - 1"
    using assms by (auto simp: ii_flush_unfold split: if_splits)
qed

text \<open>
  The effect of a flush that returns, under the bounds its copy relies on.
\<close>

lemma flush_effect:
  assumes "0 \<le> left_edge s" and "sMark s \<le> Next s" and "End_buf s \<le> END"
    and "ii_flush force s = Inr (r, s')"
  shows "(\<forall>i. shift_of force s \<le> i \<and> i < End_buf s \<longrightarrow>
            Start_buf s' (i - (Next s - Next s')) = Start_buf s i)
       \<and> (\<not> force \<and> left_edge s < MAXLEN \<longrightarrow> s' = s)
       \<and> (\<not> force \<and> left_edge s < MAXLEN \<and> \<not> Eof_read s \<and> DANGER s \<le> Next s \<longrightarrow> r = - 1)
       \<and> (\<not> force \<longrightarrow> sMark s' = sMark s - (Next s - Next s')
                    \<and> pMark s' = map_option (\<lambda>p. p - (Next s - Next s')) (pMark s))
       \<and> (force \<and> left_edge s < MAXLEN \<and> \<not> Eof_read s \<longrightarrow>
            sMark s' = Next s' \<and> pMark s' = Some (Next s'))"
proof (cases "\<not> Eof_read s \<and> (DANGER s \<le> Next s \<or> force) \<and> (force \<or> MAXLEN \<le> left_edge s)")
  case False
  have same: "s' = s"
    using assms(4) False by (simp add: ii_flush_unfold split: if_splits)
  have r: "\<not> force \<and> left_edge s < MAXLEN \<and> \<not> Eof_read s \<and> DANGER s \<le> Next s \<longrightarrow> r = - 1"
    using assms(4) by (simp add: ii_flush_unfold NO_MORE_CHARS_def split: if_splits)
  have m: "map_option (\<lambda>p. p - 0) (pMark s) = pMark s"
    by (cases "pMark s") simp_all
  have nr: "\<not> (force \<and> left_edge s < MAXLEN \<and> \<not> Eof_read s)"
    using False by blast
  show ?thesis
    using r m nr by (auto simp add: same)
next
  case True
  let ?d = "shift_of force s"
  let ?s1 = "if left_edge s < MAXLEN then reset_marks s else s"
  have ne: "\<not> NO_MORE_CHARS s"
    using True by (simp add: NO_MORE_CHARS_def)
  from True ne assms(4) have c: "compact ?d ?s1 = Inr (r, s')"
    by (simp add: ii_flush_unfold split: if_splits)
  have le: "left_edge s \<le> sMark s"
    by (simp add: left_edge_def split: option.splits)
  have d0: "0 \<le> ?d" using assms(1,2) le by (simp add: shift_of_def)
  have nx: "Next s - Next s' = ?d"
    using compact_Inr(2)[OF c] by (simp add: reset_marks_def)
  have eb: "End_buf ?s1 = End_buf s" "Start_buf ?s1 = Start_buf s"
    by (simp_all add: reset_marks_def)
  have bytes: "\<forall>i. ?d \<le> i \<and> i < End_buf s \<longrightarrow> Start_buf s' (i - ?d) = Start_buf s i"
  proof (intro allI impI)
    fix i assume i: "?d \<le> i \<and> i < End_buf s"
    have "Start_buf s' (i - ?d) = Start_buf ?s1 i"
      using i assms(3) by (intro compact_bytes[OF c d0]) (simp_all only: eb)
    then show "Start_buf s' (i - ?d) = Start_buf s i"
      by (simp only: eb)
  qed
  have keep: "\<not> force \<longrightarrow> sMark s' = sMark s - ?d \<and> pMark s' = map_option (\<lambda>p. p - ?d) (pMark s)"
  proof
    assume "\<not> force"
    then have "\<not> left_edge s < MAXLEN" using True by auto
    then have "?s1 = s" by simp
    then show "sMark s' = sMark s - ?d \<and> pMark s' = map_option (\<lambda>p. p - ?d) (pMark s)"
      using compact_Inr(3,5)[OF c] by simp
  qed
  have reset: "force \<and> left_edge s < MAXLEN \<longrightarrow> sMark s' = Next s' \<and> pMark s' = Some (Next s')"
    using compact_Inr(2,3,5)[OF c] by (simp add: reset_marks_def)
  have unchanged: "\<not> (\<not> force \<and> left_edge s < MAXLEN)"
    using True by linarith
  show ?thesis
    unfolding nx using bytes keep reset unchanged by blast
qed

text \<open>
  When the stream is exhausted, every flush that gets as far as compacting ends the
  process.
\<close>

lemma exhausted_stream_flush_is_fatal:
  assumes "os_data s (Input_file s) = Some []" and "\<not> Eof_read s"
    and "DANGER s \<le> Next s \<or> force" and "force \<or> MAXLEN \<le> left_edge s"
  shows "ii_flush force s = Inl Flush_buffer_full"
proof -
  have fill: "ii_fillbuf a t = Inr (0, t) \<or> (\<exists>t'. ii_fillbuf a t = Inr (0, t'))"
    if "os_data t (Input_file t) = Some []" for a t
    using that by (simp add: ii_fillbuf_def sys_read_def Let_def int_of_size_t_def)
  have c: "compact d t = Inl Flush_buffer_full" if "os_data t (Input_file t) = Some []" for d t
    using fill[of "t\<lparr>Start_buf := memcpy (Start_buf t) 0 d (size_t_of_int (End_buf t - d))\<rparr>"
        "End_buf t - d"] that
    by (auto simp: compact_def ferr_def)
  have nmc: "\<not> NO_MORE_CHARS s" using assms(2) by (simp add: NO_MORE_CHARS_def)
  have "os_data (reset_marks s) (Input_file (reset_marks s)) = Some []"
    using assms(1) by (simp add: reset_marks_def)
  then show ?thesis
    using assms nmc c[of s] c[of "reset_marks s"] by (auto simp: ii_flush_unfold)
qed

subsection \<open>Sliding\<close>

lemma slid_refl: "buffer_ok s \<Longrightarrow> slid 0 s s"
  by (cases "pMark s") (simp_all add: slid_def buffer_ok_def)

lemma slid_left_edge: "slid d s s' \<Longrightarrow> left_edge s' = left_edge s - d"
  by (cases "pMark s") (auto simp: slid_def left_edge_def)

lemma slid_trans:
  assumes "slid d1 s s1" and "slid d2 s1 s2"
  shows "slid (d1 + d2) s s2"
proof -
  have le: "left_edge s1 = left_edge s - d1"
    using assms(1) by (rule slid_left_edge)
  have bytes: "Start_buf s2 (i - (d1 + d2)) = Start_buf s i" if "d1 + d2 \<le> i" "i < End_buf s" for i
  proof -
    have a: "Start_buf s1 (i - d1) = Start_buf s i"
      using assms(1) that assms(2) by (simp add: slid_def)
    have "d2 \<le> i - d1" "i - d1 < End_buf s1"
      using assms(1) that by (simp_all add: slid_def)
    then have "Start_buf s2 (i - d1 - d2) = Start_buf s1 (i - d1)"
      using assms(2) by (simp add: slid_def)
    then show ?thesis using a by (simp add: algebra_simps)
  qed
  have pm: "pMark s2 = map_option (\<lambda>p. p - (d1 + d2)) (pMark s)"
    using assms by (cases "pMark s") (simp_all add: slid_def)
  show ?thesis
    unfolding slid_def
    using assms le bytes pm by (simp add: slid_def)
qed

lemma flush_slid:
  assumes "buffer_ok s" and "ii_flush False s = Inr (r, s')" and "0 \<le> r"
  shows "\<exists>d. slid d s s' \<and> Next s' = Next s - d \<and> Lineno s' = Lineno s
            \<and> Eof_read s' = Eof_read s \<and> (\<not> NO_MORE_CHARS s \<longrightarrow> Next s' < End_buf s')"
proof (cases "\<not> Eof_read s \<and> DANGER s \<le> Next s")
  case False
  then have "s' = s"
    using assms(2) by (auto simp: ii_flush_unfold split: if_splits)
  moreover have "\<not> NO_MORE_CHARS s \<longrightarrow> Next s < End_buf s"
    using False by (auto simp: NO_MORE_CHARS_def DANGER_def MAXLOOK_def)
  ultimately show ?thesis
    using slid_refl[OF assms(1)] by (intro exI[of _ 0]) simp
next
  case True
  then have nmc: "\<not> NO_MORE_CHARS s" by (simp add: NO_MORE_CHARS_def)
  have big: "MAXLEN \<le> left_edge s"
    using assms(2,3) True nmc by (auto simp: ii_flush_unfold split: if_splits)
  let ?d = "left_edge s"
  have c: "compact ?d s = Inr (r, s')"
    using assms(2) True nmc big by (simp add: ii_flush_unfold shift_of_def split: if_splits)
  have ok: "0 \<le> ?d" "?d \<le> sMark s" "sMark s \<le> Next s" "Next s \<le> End_buf s" "End_buf s \<le> END"
    using assms(1) left_edge_le[of s] by (simp_all add: buffer_ok_def)
  have e: "0 \<le> End_buf s - ?d" "End_buf s - ?d \<le> END"
    using ok by simp_all
  note ce = compact_End[OF c e]
  note ci = compact_Inr[OF c]
  have bytes: "\<forall>i. ?d \<le> i \<and> i < End_buf s \<longrightarrow> Start_buf s' (i - ?d) = Start_buf s i"
    using compact_bytes[OF c ok(1) ok(5)] by blast
  have "slid ?d s s'"
    unfolding slid_def using ok ci(3,4,5,11) ce bytes by simp
  moreover have "Next s' < End_buf s'"
    using ci(2) ce(1) ok by simp
  ultimately show ?thesis
    using ci(2,6) ce(3) by (intro exI[of _ ?d]) simp
qed

subsection \<open>One call of \<open>ii_advance\<close>\<close>

lemma consume_fields:
  assumes "consume s = (c, s')"
  shows "c = uint (Start_buf s (Next s))" "Next s' = Next s + 1"
    "Lineno s' = Lineno s + (if c = 10 then 1 else 0)"
    "Start_buf s' = Start_buf s" "End_buf s' = End_buf s" "sMark s' = sMark s"
    "eMark s' = eMark s" "pMark s' = pMark s" "been_called s' = been_called s"
    "Eof_read s' = Eof_read s"
  using assms by (auto simp: consume_def Let_def uint_eq_10 split: if_splits)

lemma ii_advance_called:
  "been_called s \<Longrightarrow>
   ii_advance s =
     (if NO_MORE_CHARS s then Inr (0, s)
      else if Eof_read s then Inr (consume s)
      else case ii_flush False s of
             Inl e \<Rightarrow> Inl e
           | Inr (r, s1) \<Rightarrow> if r < 0 then Inr (- 1, s1) else Inr (consume s1))"
  by (simp add: ii_advance_def)

lemma slid_consume:
  assumes "slid d s s1" and "consume s1 = (c, s')"
  shows "slid d s s'"
  using assms(1) consume_fields(4-9)[OF assms(2)] by (simp add: slid_def)

lemma advance_step:
  assumes "been_called s" and "buffer_ok s" and "ii_advance s = Inr (c, s')"
  shows "(s' = s \<and> (c = - 1 \<or> (c = 0 \<and> NO_MORE_CHARS s)))
       \<or> (\<exists>d. slid d s s' \<and> Next s' = Next s - d + 1 \<and> Next s' \<le> End_buf s'
               \<and> c = uint (Start_buf s' (Next s' - 1))
               \<and> Lineno s' = Lineno s + (if c = 10 then 1 else 0)
               \<and> Eof_read s' = Eof_read s \<and> \<not> NO_MORE_CHARS s)"
proof (cases "NO_MORE_CHARS s")
  case True
  then show ?thesis
    using assms by (simp add: ii_advance_called)
next
  case nmc: False
  show ?thesis
  proof (cases "Eof_read s")
    case True
    then have c: "consume s = (c, s')"
      using assms nmc by (simp add: ii_advance_called)
    note f = consume_fields[OF c]
    have "Next s < End_buf s"
      using nmc True by (simp add: NO_MORE_CHARS_def)
    then have "slid 0 s s' \<and> Next s' = Next s - 0 + 1 \<and> Next s' \<le> End_buf s'
               \<and> c = uint (Start_buf s' (Next s' - 1))
               \<and> Lineno s' = Lineno s + (if c = 10 then 1 else 0)
               \<and> Eof_read s' = Eof_read s \<and> \<not> NO_MORE_CHARS s"
      using slid_consume[OF slid_refl[OF assms(2)] c] f nmc by simp
    then show ?thesis by blast
  next
    case False
    have "\<exists>r s1. ii_flush False s = Inr (r, s1)
            \<and> (if r < 0 then Inr (- 1, s1) else Inr (consume s1)) = Inr (c, s')"
    proof (cases "ii_flush False s")
      case (Inl e)
      then show ?thesis
        using assms(1,3) nmc False by (simp add: ii_advance_called)
    next
      case (Inr p)
      then show ?thesis
        using assms(1,3) nmc False by (cases p) (auto simp add: ii_advance_called split: if_splits)
    qed
    then obtain r s1 where
      fl: "ii_flush False s = Inr (r, s1)"
      and res: "(if r < 0 then Inr (- 1, s1) else Inr (consume s1)) = Inr (c, s')"
      by blast
    show ?thesis
    proof (cases "r < 0")
      case True
      then show ?thesis
        using res ii_flush_refused(1)[OF fl True] by simp
    next
      case r0: False
      then have c: "consume s1 = (c, s')" using res by simp
      note f = consume_fields[OF c]
      from flush_slid[OF assms(2) fl] r0 nmc obtain d where
        d: "slid d s s1" "Next s1 = Next s - d" "Lineno s1 = Lineno s"
          "Eof_read s1 = Eof_read s" "Next s1 < End_buf s1"
        by auto
      have "slid d s s' \<and> Next s' = Next s - d + 1 \<and> Next s' \<le> End_buf s'
               \<and> c = uint (Start_buf s' (Next s' - 1))
               \<and> Lineno s' = Lineno s + (if c = 10 then 1 else 0)
               \<and> Eof_read s' = Eof_read s \<and> \<not> NO_MORE_CHARS s"
        using slid_consume[OF d(1) c] f d(2-5) nmc by simp
      then show ?thesis by blast
    qed
  qed
qed

lemma advance_ok:
  assumes "been_called s" and "buffer_ok s" and "ii_advance s = Inr (c, s')"
  shows "been_called s'" "buffer_ok s'"
proof -
  from advance_step[OF assms] consider
    "s' = s" | d where "slid d s s'" "Next s' = Next s - d + 1" "Next s' \<le> End_buf s'"
    by blast
  then have "been_called s' \<and> buffer_ok s'"
  proof cases
    case 1
    then show ?thesis using assms by simp
  next
    case 2
    have "left_edge s' = left_edge s - d" using 2(1) by (rule slid_left_edge)
    then show ?thesis
      using 2 assms(1,2) by (simp add: slid_def buffer_ok_def)
  qed
  then show "been_called s'" "buffer_ok s'" by simp_all
qed

lemma advance_Lineno:
  assumes "been_called s" and "buffer_ok s" and "ii_advance s = Inr (c, s')"
  shows "Lineno s' = Lineno s + (if c = 10 then 1 else 0)"
  using advance_step[OF assms] by auto

subsection \<open>Several calls of \<open>ii_advance\<close>\<close>

lemma advances_Suc_Inr:
  assumes "advances (Suc n) s = Inr (cs, s2)"
  obtains c s1 cs1 where "ii_advance s = Inr (c, s1)" "advances n s1 = Inr (cs1, s2)" "cs = c # cs1"
  using assms by (auto split: sum.splits)

lemma advances_unfold:
  "0 < n \<Longrightarrow>
   advances n s =
     (case ii_advance s of
        Inl e \<Rightarrow> Inl e
      | Inr (c, s1) \<Rightarrow>
          (case advances (n - 1) s1 of
             Inl e \<Rightarrow> Inl e
           | Inr (cs, s2) \<Rightarrow> Inr (c # cs, s2)))"
  by (cases n) (auto split: sum.splits)

lemma run_Lineno:
  "advances k s0 = Inr (cs, s) \<Longrightarrow> been_called s0 \<Longrightarrow> buffer_ok s0 \<Longrightarrow>
   Lineno s = Lineno s0 + int (count_list cs 10)"
proof (induction k arbitrary: s0 cs)
  case 0
  then show ?case by simp
next
  case (Suc k)
  from Suc.prems(1) obtain c sa cs1 where
    a: "ii_advance s0 = Inr (c, sa)" and r: "advances k sa = Inr (cs1, s)" and cs: "cs = c # cs1"
    by (rule advances_Suc_Inr)
  note ok = advance_ok[OF Suc.prems(2,3) a]
  have "Lineno s = Lineno sa + int (count_list cs1 10)"
    using Suc.IH[OF r ok] .
  then show ?case
    using advance_Lineno[OF Suc.prems(2,3) a] by (simp add: cs)
qed

lemma run_behind:
  "advances k s0 = Inr (cs, s) \<Longrightarrow> been_called s0 \<Longrightarrow> buffer_ok s0 \<Longrightarrow>
   been_called s \<and> buffer_ok s \<and> length cs = k
   \<and> (\<exists>D. slid D s0 s \<and> Next s \<le> Next s0 - D + int k
          \<and> (Next s = Next s0 - D + int k \<longrightarrow>
               (\<forall>j<k. cs ! j = uint (Start_buf s (Next s0 - D + int j)))))"
proof (induction k arbitrary: s0 cs)
  case 0
  then show ?case
    using slid_refl[of s0] by (auto intro!: exI[of _ 0])
next
  case (Suc k)
  from Suc.prems(1) obtain c sa cs1 where
    a: "ii_advance s0 = Inr (c, sa)" and r: "advances k sa = Inr (cs1, s)" and cs: "cs = c # cs1"
    by (rule advances_Suc_Inr)
  note ok = advance_ok[OF Suc.prems(2,3) a]
  from Suc.IH[OF r ok] obtain D2 where
    ih: "been_called s" "buffer_ok s" "length cs1 = k" "slid D2 sa s"
      "Next s \<le> Next sa - D2 + int k"
      "Next s = Next sa - D2 + int k \<longrightarrow> (\<forall>j<k. cs1 ! j = uint (Start_buf s (Next sa - D2 + int j)))"
    by blast
  from advance_step[OF Suc.prems(2,3) a] consider
    (same) "sa = s0"
    | (read) d where "slid d s0 sa" "Next sa = Next s0 - d + 1" "Next sa \<le> End_buf sa"
        "c = uint (Start_buf sa (Next sa - 1))"
    by blast
  then have "\<exists>D. slid D s0 s \<and> Next s \<le> Next s0 - D + int (Suc k)
          \<and> (Next s = Next s0 - D + int (Suc k) \<longrightarrow>
               (\<forall>j<Suc k. cs ! j = uint (Start_buf s (Next s0 - D + int j))))"
  proof cases
    case same
    have "slid D2 s0 s \<and> Next s \<le> Next s0 - D2 + int (Suc k)
          \<and> (Next s = Next s0 - D2 + int (Suc k) \<longrightarrow>
               (\<forall>j<Suc k. cs ! j = uint (Start_buf s (Next s0 - D2 + int j))))"
      using ih(4,5) same by auto
    then show ?thesis by blast
  next
    case read
    have sl: "slid (d + D2) s0 s"
      using slid_trans[OF read(1) ih(4)] .
    have le: "Next s \<le> Next s0 - (d + D2) + int (Suc k)"
      using ih(5) read(2) by simp
    have nth: "\<forall>j<Suc k. cs ! j = uint (Start_buf s (Next s0 - (d + D2) + int j))"
      if all: "Next s = Next s0 - (d + D2) + int (Suc k)"
    proof (intro allI impI)
      fix j assume j: "j < Suc k"
      have eq: "Next s = Next sa - D2 + int k"
        using all read(2) by simp
      show "cs ! j = uint (Start_buf s (Next s0 - (d + D2) + int j))"
      proof (cases j)
        case 0
        have "D2 \<le> left_edge sa" "left_edge sa \<le> sMark sa" "sMark sa = sMark s0 - d"
          "sMark s0 \<le> Next s0"
          using ih(4) read(1) left_edge_le[of sa] Suc.prems(3)
          by (simp_all add: slid_def buffer_ok_def)
        then have "D2 \<le> Next sa - 1" "Next sa - 1 < End_buf sa"
          using read(2,3) by simp_all
        then have A: "Start_buf s (Next sa - 1 - D2) = Start_buf sa (Next sa - 1)"
          using ih(4) by (simp add: slid_def)
        have B: "Next s0 - (d + D2) + int j = Next sa - 1 - D2"
          using 0 read(2) by simp
        have "cs ! j = c" using 0 by (simp add: cs)
        then show ?thesis
          by (simp only: B A read(4))
      next
        case (Suc i)
        then have A: "cs1 ! i = uint (Start_buf s (Next sa - D2 + int i))"
          using ih(6) eq j by simp
        have B: "Next s0 - (d + D2) + int j = Next sa - D2 + int i"
          using Suc read(2) by simp
        have "cs ! j = cs1 ! i" using Suc by (simp add: cs)
        then show ?thesis
          by (simp only: B A)
      qed
    qed
    show ?thesis
      using sl le nth by blast
  qed
  then show ?case
    using ih(1,2,3) by (simp add: cs)
qed

lemma run_ahead:
  "advances k s1 = Inr (cs, s2) \<Longrightarrow> been_called s1 \<Longrightarrow> buffer_ok s1 \<Longrightarrow>
   Next s1 + int k \<le> End_buf s1 \<Longrightarrow> - 1 \<notin> set cs \<Longrightarrow>
   length cs = k \<and> (\<forall>j<k. cs ! j = uint (Start_buf s1 (Next s1 + int j)))"
proof (induction k arbitrary: s1 cs)
  case 0
  then show ?case by simp
next
  case (Suc k)
  from Suc.prems(1) obtain c sa cs1 where
    a: "ii_advance s1 = Inr (c, sa)" and r: "advances k sa = Inr (cs1, s2)" and cs: "cs = c # cs1"
    by (rule advances_Suc_Inr)
  note ok = advance_ok[OF Suc.prems(2,3) a]
  have lt: "Next s1 < End_buf s1" using Suc.prems(4) by simp
  then have nmc: "\<not> NO_MORE_CHARS s1" by (simp add: NO_MORE_CHARS_def)
  have c1: "c \<noteq> - 1" using Suc.prems(5) cs by auto
  from advance_step[OF Suc.prems(2,3) a] nmc c1 obtain d where
    d: "slid d s1 sa" "Next sa = Next s1 - d + 1" "c = uint (Start_buf sa (Next sa - 1))"
    by blast
  have edge: "d \<le> Next s1"
    using d(1) left_edge_le[of s1] Suc.prems(3) by (simp add: slid_def buffer_ok_def)
  have keep: "Start_buf sa (i - d) = Start_buf s1 i" if "Next s1 \<le> i" "i < End_buf s1" for i
    using d(1) edge that by (simp add: slid_def)
  have room: "Next sa + int k \<le> End_buf sa"
    using d(1,2) Suc.prems(4) by (simp add: slid_def)
  have tail: "- 1 \<notin> set cs1" using Suc.prems(5) cs by simp
  from Suc.IH[OF r ok room tail] have
    ih: "length cs1 = k" "\<forall>j<k. cs1 ! j = uint (Start_buf sa (Next sa + int j))"
    by simp_all
  have "cs ! j = uint (Start_buf s1 (Next s1 + int j))" if "j < Suc k" for j
  proof (cases j)
    case 0
    have "Start_buf sa (Next s1 - d) = Start_buf s1 (Next s1)"
      using keep[of "Next s1"] lt by simp
    then show ?thesis
      using 0 d(2,3) by (simp add: cs)
  next
    case (Suc i)
    have A: "Start_buf sa (Next s1 + 1 + int i - d) = Start_buf s1 (Next s1 + 1 + int i)"
      using keep[of "Next s1 + 1 + int i"] Suc that \<open>Next s1 + int (Suc k) \<le> End_buf s1\<close> by simp
    have B: "cs1 ! i = uint (Start_buf sa (Next sa + int i))"
      using ih(2) Suc that by simp
    have C: "Next sa + int i = Next s1 + 1 + int i - d" "Next s1 + int j = Next s1 + 1 + int i"
      using Suc d(2) by simp_all
    have "cs ! j = cs1 ! i" using Suc by (simp add: cs)
    then show ?thesis
      by (simp only: B C A)
  qed
  then show ?case
    using ih(1) by (simp add: cs)
qed

subsection \<open>Pushback\<close>

lemma crossed_step:
  assumes "0 \<le> k" and "Start_buf t = Start_buf s" and "Next t = Next s - 1"
  shows "crossed s (k + 1) = crossed t k @ [Start_buf s (Next s - 1)]"
proof -
  have n: "nat (k + 1) = Suc (nat k)" using assms(1) by simp
  have front: "Next s - (k + 1) + int j = Next t - k + int j" for j
    using assms(3) by simp
  have last: "Next t - k + int (nat k) = Next s - 1"
    using assms(1,3) by simp
  show ?thesis
    unfolding crossed_def n by (simp only: upt_Suc_append le0 map_append list.map front last assms(2))
qed

lemma line_breaks_snoc:
  "line_breaks (bs @ [b]) = line_breaks bs + (if b = 10 \<or> b = 0 then 1 else 0)"
  by (simp add: line_breaks_def)

lemma line_breaks_count:
  "line_breaks bs = int (count_list (map uint bs) 10) + int (count_list (map uint bs) 0)"
  by (induction bs) (auto simp: line_breaks_def uint_eq_10 uint_eq_0)

lemma pusback_loop_eq:
  "0 \<le> n \<Longrightarrow> sMark s \<le> Next s \<Longrightarrow>
   pusback_loop n s =
     s\<lparr>Next := Next s - min n (Next s - sMark s),
       Lineno := Lineno s - line_breaks (crossed s (min n (Next s - sMark s)))\<rparr>"
proof (induction n s rule: pusback_loop.induct)
  case (1 n s)
  show ?case
  proof (cases "n - 1 \<ge> 0 \<and> Next s > sMark s")
    case False
    then have "min n (Next s - sMark s) = 0"
      using "1.prems" by auto
    then show ?thesis
      using False by (auto simp add: pusback_loop.simps[of n s] line_breaks_def crossed_def)
  next
    case True
    let ?b = "Start_buf s (Next s - 1)"
    let ?s1 = "s\<lparr>Next := Next s - 1\<rparr>"
    let ?s2 = "if ?b = 10 \<or> ?b = 0 then ?s1\<lparr>Lineno := Lineno ?s1 - 1\<rparr> else ?s1"
    let ?k = "min (n - 1) (Next s - 1 - sMark s)"
    have k: "min n (Next s - sMark s) = ?k + 1" "0 \<le> ?k"
      using True by auto
    have ih: "pusback_loop (n - 1) ?s2 =
        ?s2\<lparr>Next := Next ?s2 - ?k, Lineno := Lineno ?s2 - line_breaks (crossed ?s2 ?k)\<rparr>"
      using "1.IH"[of ?s1 ?s2] True by auto
    have unf: "pusback_loop n s = pusback_loop (n - 1) ?s2"
      using True by (subst pusback_loop.simps) (simp add: Let_def)
    have cr: "crossed s (?k + 1) = crossed ?s2 ?k @ [?b]"
      by (rule crossed_step[OF k(2)]) simp_all
    show ?thesis
      unfolding unf ih k cr line_breaks_snoc
      by simp
  qed
qed

lemma ii_pusback_eq:
  assumes "0 \<le> n" and "sMark s \<le> Next s"
  shows "ii_pusback n s =
     (let k = min n (Next s - sMark s);
          s1 = s\<lparr>Next := Next s - k, Lineno := Lineno s - line_breaks (crossed s k)\<rparr>
      in (if sMark s < Next s - k then 1 else 0,
          if Next s - k < eMark s then s1\<lparr>eMark := Next s - k, Mline := Lineno s1\<rparr> else s1))"
  by (simp add: ii_pusback_def pusback_loop_eq[OF assms] Let_def)

lemma pusback_ok:
  assumes "0 \<le> k" and "k \<le> Next s - sMark s" and "buffer_ok s" and "ii_pusback k s = (r, s1)"
  shows "buffer_ok s1" "been_called s1 = been_called s" "Next s1 = Next s - k"
    "Start_buf s1 = Start_buf s" "End_buf s1 = End_buf s"
    "Lineno s1 = Lineno s - line_breaks (crossed s k)"
proof -
  have sm: "sMark s \<le> Next s" using assms(3) by (simp add: buffer_ok_def)
  have mk: "min k (Next s - sMark s) = k" using assms(2) by simp
  have le: "left_edge s1 = left_edge s"
    using assms(4) unfolding ii_pusback_eq[OF assms(1) sm] mk
    by (auto simp: Let_def left_edge_def split: if_splits option.splits)
  show "buffer_ok s1"
    using assms(1,2,3,4) le unfolding ii_pusback_eq[OF assms(1) sm] mk
    by (auto simp: Let_def buffer_ok_def split: if_splits)
  show "been_called s1 = been_called s" "Next s1 = Next s - k"
    "Start_buf s1 = Start_buf s" "End_buf s1 = End_buf s"
    "Lineno s1 = Lineno s - line_breaks (crossed s k)"
    using assms(4) unfolding ii_pusback_eq[OF assms(1) sm] mk
    by (auto simp: Let_def split: if_splits)
qed

subsection \<open>Switching streams\<close>

lemma ii_newfile_fields:
  assumes "ii_newfile filename s = (fd, s')" and "fd \<noteq> - 1"
  shows "Lineno s' = 1 \<and> Mline s' = 1 \<and> Next s' = END \<and> sMark s' = END \<and> eMark s' = END
       \<and> End_buf s' = END \<and> Eof_read s' = False \<and> Input_file s' = fd
       \<and> pMark s' = pMark s \<and> pLineno s' = pLineno s \<and> pLength s' = pLength s
       \<and> Termchar s' = Termchar s \<and> Start_buf s' = Start_buf s
       \<and> been_called s' = been_called s"
  using assms
  by (auto simp: ii_newfile_def Let_def sys_close_def split: if_splits option.splits)

subsection \<open>The invariant of the marks\<close>

lemma marks_ok_frame:
  assumes "marks_ok s" and "sMark s' = sMark s" and "eMark s' = eMark s" and "pMark s' = pMark s"
    and "Next s' = Next s" and "End_buf s' \<le> END"
  shows "marks_ok s'"
  using assms by (simp add: marks_ok_def left_edge_def split: option.splits)

lemma compact_marks_ok:
  assumes "marks_ok s1" and "0 \<le> d" and "d \<le> left_edge s1" and "compact d s1 = Inr (r, s')"
  shows "marks_ok s'"
proof -
  let ?s2 = "s1\<lparr>Start_buf := memcpy (Start_buf s1) 0 d (size_t_of_int (End_buf s1 - d))\<rparr>"
  from assms(4) obtain got s3 where f: "ii_fillbuf (End_buf s1 - d) ?s2 = Inr (got, s3)"
    and s': "s' = rebase d s3"
    by (auto simp: compact_def ferr_def split: sum.splits if_splits)
  have "End_buf s3 \<le> END"
    using ii_fillbuf_End[OF f] assms(1,2) by (simp add: marks_ok_def)
  moreover note ci = compact_Inr[OF assms(4)]
  moreover have "left_edge s' = left_edge s1 - d"
    using ci(3,5) by (cases "pMark s1") (auto simp: left_edge_def)
  ultimately show ?thesis
    using assms(1,3) ci(2,3,4) by (simp add: marks_ok_def s' rebase_def)
qed

lemma ii_flush_marks_ok:
  assumes "marks_ok s" and "ii_flush force s = Inr (r, s')"
  shows "marks_ok s'"
proof (cases "s' = s")
  case True
  then show ?thesis using assms(1) by simp
next
  case False
  let ?s1 = "if left_edge s < MAXLEN then reset_marks s else s"
  from False assms(2) have c: "compact (shift_of force s) ?s1 = Inr (r, s')"
    and f: "force \<or> MAXLEN \<le> left_edge s"
    by (auto simp: ii_flush_unfold split: if_splits)
  have ok1: "marks_ok ?s1"
    using assms(1) left_edge_le[of s] by (simp add: marks_ok_def reset_marks_def left_edge_def)
  have d: "0 \<le> shift_of force s" "shift_of force s \<le> left_edge ?s1"
    using assms(1) left_edge_le[of s] f
    by (auto simp: marks_ok_def shift_of_def reset_marks_def left_edge_def)
  show ?thesis
    using compact_marks_ok[OF ok1 d c] .
qed

lemma seed_marks_ok: "marks_ok s \<Longrightarrow> marks_ok (seed_newline s)"
  by (auto simp: marks_ok_def seed_newline_def left_edge_def END_val split: option.splits)

lemma consume_marks_ok: "marks_ok s \<Longrightarrow> marks_ok (snd (consume s))"
  by (auto simp: marks_ok_def consume_def left_edge_def Let_def split: option.splits)

lemma ii_advance_marks_ok:
  assumes "marks_ok s" and "ii_advance s = Inr (c, s')"
  shows "marks_ok s'"
proof -
  let ?t = "if \<not> been_called s then seed_newline s else s"
  have bc: "been_called ?t" by (simp add: seed_newline_def)
  have ok: "marks_ok ?t" using assms(1) seed_marks_ok by simp
  have adv: "ii_advance ?t = Inr (c, s')"
    using assms(2) bc by (simp add: ii_advance_def)
  show ?thesis
  proof (cases "ii_flush False ?t")
    case (Inl e)
    then show ?thesis
      using adv ok consume_marks_ok[OF ok] unfolding ii_advance_called[OF bc]
      by (auto split: if_splits)
  next
    case (Inr p)
    obtain r s1 where p: "p = (r, s1)" by (cases p)
    have "marks_ok s1" using ii_flush_marks_ok[OF ok] Inr p by simp
    then show ?thesis
      using adv ok consume_marks_ok[OF ok] consume_marks_ok[of s1] Inr
      unfolding ii_advance_called[OF bc] p
      by (auto split: if_splits)
  qed
qed

lemma pusback_loop_marks:
  "sMark s \<le> Next s \<Longrightarrow>
   sMark (pusback_loop n s) = sMark s \<and> eMark (pusback_loop n s) = eMark s
   \<and> pMark (pusback_loop n s) = pMark s \<and> End_buf (pusback_loop n s) = End_buf s
   \<and> sMark s \<le> Next (pusback_loop n s) \<and> Next (pusback_loop n s) \<le> Next s"
proof (induction n s rule: pusback_loop.induct)
  case (1 n s)
  show ?case
  proof (cases "n - 1 \<ge> 0 \<and> Next s > sMark s")
    case False
    then show ?thesis
      using "1.prems" by (subst (1 2 3 4 5 6) pusback_loop.simps) auto
  next
    case True
    let ?b = "Start_buf s (Next s - 1)"
    let ?s1 = "s\<lparr>Next := Next s - 1\<rparr>"
    let ?s2 = "if ?b = 10 \<or> ?b = 0 then ?s1\<lparr>Lineno := Lineno ?s1 - 1\<rparr> else ?s1"
    have unf: "pusback_loop n s = pusback_loop (n - 1) ?s2"
      using True by (subst pusback_loop.simps) (simp add: Let_def)
    have "sMark ?s2 \<le> Next ?s2" using True by simp
    then have "sMark (pusback_loop (n - 1) ?s2) = sMark ?s2
        \<and> eMark (pusback_loop (n - 1) ?s2) = eMark ?s2
        \<and> pMark (pusback_loop (n - 1) ?s2) = pMark ?s2
        \<and> End_buf (pusback_loop (n - 1) ?s2) = End_buf ?s2
        \<and> sMark ?s2 \<le> Next (pusback_loop (n - 1) ?s2)
        \<and> Next (pusback_loop (n - 1) ?s2) \<le> Next ?s2"
      using "1.IH"[of ?s1 ?s2] True by auto
    then show ?thesis
      unfolding unf by auto
  qed
qed

lemma ii_pusback_marks_ok:
  assumes "marks_ok s"
  shows "marks_ok (snd (ii_pusback n s))"
proof -
  have "sMark s \<le> Next s" using assms by (simp add: marks_ok_def)
  note l = pusback_loop_marks[OF this, of n]
  show ?thesis
    using assms l by (auto simp: ii_pusback_def Let_def marks_ok_def left_edge_def split: option.splits)
qed

lemma ii_term_marks_ok: "marks_ok s \<Longrightarrow> marks_ok (ii_term s)"
  by (simp add: marks_ok_def ii_term_def left_edge_def Let_def split: option.splits)

lemma ii_unterm_marks_ok: "marks_ok s \<Longrightarrow> marks_ok (ii_unterm s)"
  by (simp add: marks_ok_def ii_unterm_def left_edge_def Let_def split: option.splits)

lemma ii_mark_end_marks_ok: "marks_ok s \<Longrightarrow> marks_ok (snd (ii_mark_end s))"
  by (auto simp: marks_ok_def ii_mark_end_def left_edge_def split: option.splits)

lemma run_call_marks_ok:
  assumes "marks_ok s" and "run_call c s = Inr s'"
  shows "marks_ok s'"
proof (cases c)
  case (Newfile f)
  then show ?thesis
    using assms
    by (auto simp: marks_ok_def ii_newfile_def sys_close_def left_edge_def Let_def END_val
        split: if_splits option.splits)
next
  case Mark_start
  then show ?thesis
    using assms left_edge_le[of s]
    by (auto simp: marks_ok_def ii_mark_start_def left_edge_def split: option.splits)
next
  case Mark_end
  then show ?thesis using assms ii_mark_end_marks_ok by auto
next
  case Move_start
  then show ?thesis
    using assms
    by (auto simp: marks_ok_def ii_move_start_def left_edge_def split: option.splits if_splits)
next
  case To_mark
  then show ?thesis
    using assms by (auto simp: marks_ok_def ii_to_mark_def left_edge_def split: option.splits)
next
  case Mark_prev
  then show ?thesis
    using assms left_edge_le[of s]
    by (auto simp: marks_ok_def ii_mark_prev_def left_edge_def split: option.splits)
next
  case Advance
  then obtain c1 where "ii_advance s = Inr (c1, s')"
    using assms(2) by (cases "ii_advance s") auto
  then show ?thesis using ii_advance_marks_ok[OF assms(1)] by simp
next
  case (Flush force)
  then obtain r where "ii_flush force s = Inr (r, s')"
    using assms(2) by (cases "ii_flush force s") auto
  then show ?thesis using ii_flush_marks_ok[OF assms(1)] by simp
next
  case (Fillbuf a)
  show ?thesis
  proof (cases "0 \<le> a \<and> a \<le> END")
    case True
    then obtain got where f: "ii_fillbuf a s = Inr (got, s')"
      using assms(2) Fillbuf by (cases "ii_fillbuf a s") auto
    have "End_buf s' \<le> END"
      using ii_fillbuf_End[OF f] True assms(1) by (simp add: marks_ok_def)
    then show ?thesis
      using marks_ok_frame[OF assms(1)] ii_fillbuf_frame[OF f] by simp
  next
    case False
    then have "s' = s" using assms(2) Fillbuf by (auto split: if_splits)
    then show ?thesis using assms(1) by simp
  qed
next
  case (Pusback n)
  then show ?thesis using assms ii_pusback_marks_ok[of s n] by auto
next
  case Term
  then show ?thesis using assms ii_term_marks_ok by auto
next
  case Unterm
  then show ?thesis using assms ii_unterm_marks_ok by auto
next
  case Input
  let ?t = "if Termchar s \<noteq> 0 then ii_unterm s else s"
  have ok: "marks_ok ?t" using assms(1) ii_unterm_marks_ok by simp
  from Input assms(2) obtain c1 s1 where a: "ii_advance ?t = Inr (c1, s1)"
    and s': "s' = (if Termchar s \<noteq> 0 then ii_term (snd (ii_mark_end s1)) else snd (ii_mark_end s1))"
    by (auto simp: ii_input_def split: if_splits sum.splits)
  have "marks_ok s1" using ii_advance_marks_ok[OF ok a] .
  then show ?thesis
    using ii_mark_end_marks_ok[of s1] ii_term_marks_ok[of "snd (ii_mark_end s1)"] by (simp add: s')
next
  case (Uninput b)
  have w: "marks_ok (t\<lparr>Start_buf := m\<rparr>)" if "marks_ok t" for t m
    using that by (simp add: marks_ok_def left_edge_def split: option.splits)
  let ?t = "if Termchar s \<noteq> 0 then ii_unterm s else s"
  have ok: "marks_ok ?t" using assms(1) ii_unterm_marks_ok by simp
  have p: "marks_ok (snd (ii_pusback 1 ?t))" using ii_pusback_marks_ok[OF ok] .
  show ?thesis
    using assms(2) Uninput p w[OF p] ii_term_marks_ok[OF p] ii_term_marks_ok[OF w[OF p]]
    by (auto simp: ii_uninput_def Let_def split: if_splits prod.splits)
next
  case Flushbuf
  let ?t = "if Termchar s \<noteq> 0 then ii_unterm s else s"
  have ok: "marks_ok ?t" using assms(1) ii_unterm_marks_ok by simp
  from Flushbuf assms(2) obtain r where "ii_flush True ?t = Inr (r, s')"
    by (cases "ii_flush True ?t") (auto simp: ii_flushbuf_def)
  then show ?thesis using ii_flush_marks_ok[OF ok] by simp
qed

lemma reachable_marks_ok: "reachable s \<Longrightarrow> marks_ok s"
proof (induction rule: reachable.induct)
  case (initial opn dat)
  show ?case by (simp add: marks_ok_def init_state_def left_edge_def END_val)
next
  case (after_call s c s')
  then show ?case using run_call_marks_ok by blast
qed

lemma buffer_ok_marks: "buffer_ok s = (marks_ok s \<and> Next s \<le> End_buf s)"
  by (auto simp: buffer_ok_def marks_ok_def)

subsection \<open>Running the model on the concrete states\<close>

lemmas state_defs = fresh_state_def init_state_def short_stream_def null_stream_def
  short_state_def null_state_def drained_state_def

lemmas eval_defs = ii_advance_def seed_newline_def NO_MORE_CHARS_def ii_flush_def DANGER_def
  ii_fillbuf_def size_t_of_int_def int_of_size_t_def sys_read_def consume_def ferr_def
  signed_divide_int_def ii_mark_start_def ii_mark_prev_def Let_def store_bytes_apply
  store_bytes_Nil memcpy_def

lemmas more_defs = marked_state_def reopened_state_def stale_state_def ii_newfile_def
  ii_term_def ii_unterm_def ii_mark_end_def sys_close_def

lemma short_state_reached: "ii_advance (fresh_state short_stream) = Inr (10, short_state)"
  by (simp add: state_defs eval_defs const_defs)

lemma null_state_reached:
  "advances 3 (fresh_state null_stream) = Inr ([10, 0, 10], null_state)"
  by (simp add: advances_unfold state_defs eval_defs const_defs)

lemma drained_state_reached:
  "ii_fillbuf 6 short_state = Inr (0, short_state\<lparr>Eof_read := True\<rparr>)"
  "advances 5 (short_state\<lparr>Eof_read := True\<rparr>) = Inr ([97, 98, 10, 99, 100], drained_state)"
  by (simp_all add: advances_unfold state_defs eval_defs const_defs)

text \<open>The concrete states are states a client can bring about.\<close>

lemma reachable_advances:
  "reachable s \<Longrightarrow> advances n s = Inr (cs, s') \<Longrightarrow> reachable s'"
proof (induction n arbitrary: s cs)
  case 0
  then show ?case by simp
next
  case (Suc n)
  from Suc.prems(2) obtain c s1 cs1 where
    a: "ii_advance s = Inr (c, s1)" and r: "advances n s1 = Inr (cs1, s')"
    by (rule advances_Suc_Inr)
  have "run_call Advance s = Inr s1" using a by simp
  then have "reachable s1" using Suc.prems(1) by (rule reachable.after_call[rotated])
  then show ?case using r by (rule Suc.IH)
qed

lemma concrete_states_reachable:
  "reachable (fresh_state bs)" "reachable short_state" "reachable null_state"
  "reachable drained_state" "reachable marked_state" "reachable reopened_state"
  "reachable stale_state"
proof -
  show fresh: "reachable (fresh_state bs)" for bs
    unfolding fresh_state_def by (rule reachable.initial)
  have "run_call Advance (fresh_state short_stream) = Inr short_state"
    by (simp add: short_state_reached)
  then show short: "reachable short_state"
    using fresh by (rule reachable.after_call[rotated])
  show "reachable null_state"
    using fresh null_state_reached by (rule reachable_advances)
  have "run_call (Fillbuf 6) short_state = Inr (short_state\<lparr>Eof_read := True\<rparr>)"
    by (simp add: drained_state_reached(1) END_val)
  then have "reachable (short_state\<lparr>Eof_read := True\<rparr>)"
    using short by (rule reachable.after_call[rotated])
  then show "reachable drained_state"
    using drained_state_reached(2) by (rule reachable_advances)
  have prev: "reachable (snd (ii_mark_prev short_state))"
    using short by (rule reachable.after_call[where c = Mark_prev]) simp
  then show "reachable marked_state"
    unfolding marked_state_def by (rule reachable.after_call[where c = Term]) simp
  show "reachable reopened_state"
    unfolding reopened_state_def
    using short by (rule reachable.after_call[where c = "Newfile (Some ''next.c'')"]) simp
  show "reachable stale_state"
    unfolding stale_state_def
    using prev by (rule reachable.after_call[where c = "Newfile (Some ''next.c'')"]) simp
qed

lemma eof_marked_state_reachable: "reachable (short_state\<lparr>Eof_read := True\<rparr>)"
proof -
  have "run_call (Fillbuf 6) short_state = Inr (short_state\<lparr>Eof_read := True\<rparr>)"
    by (simp add: drained_state_reached(1) END_val)
  then show ?thesis
    using concrete_states_reachable(2) by (rule reachable.after_call[rotated])
qed

section \<open>Claim C1: compaction keeps every byte right of the left edge\<close>

text \<open>
  C1, as amended. In every state that has the invariant of the marks, and so in every
  reachable state and at every call of \<open>ii_flush\<close> from \<open>ii_advance\<close>: whenever \<open>ii_flush\<close>
  returns, every byte at an offset from the protected edge up to \<open>End_buf\<close> is found
  again at its offset less the shift, the shift being the distance \<open>Next\<close> has moved,
  and that offset is within the new extent of the data, which ends no further left
  than the old end less the shift. The protected edge is the left edge
  \<open>min(sMark, pMark)\<close> (\<open>sMark\<close> alone while \<open>pMark\<close> is unset); only a forced flush that
  finds the left edge closer than \<open>MAXLEN\<close> to the start of the buffer moves the edge to
  the cursor, and it does so by setting \<open>sMark\<close> and \<open>pMark\<close> to \<open>Next\<close> first. A flush
  that is not forced and finds the left edge closer than \<open>MAXLEN\<close> to the start always
  returns, with the whole state unchanged; what it returns is \<open>0\<close> at the end of input,
  \<open>1\<close> when the end of file has been read or the cursor is outside the danger zone,
  and the soft error \<open>-1\<close> in the one remaining case: the cursor in the danger zone of
  a stream whose end has not been read. A flush that is not forced never resets the
  marks.
\<close>

theorem flush_keeps_marked_bytes:
  assumes "marks_ok s"
  shows "(ii_flush force s = Inr (r, s') \<longrightarrow>
            (\<forall>i. shift_of force s \<le> i \<and> i < End_buf s \<longrightarrow>
                 Start_buf s' (i - (Next s - Next s')) = Start_buf s i
                 \<and> i - (Next s - Next s') < End_buf s')
            \<and> End_buf s - (Next s - Next s') \<le> End_buf s')
       \<and> (left_edge s < MAXLEN \<longrightarrow>
            ii_flush False s =
              Inr (if NO_MORE_CHARS s then 0
                   else if Eof_read s \<or> Next s < DANGER s then 1 else - 1, s))
       \<and> (left_edge s < MAXLEN \<longrightarrow>
            (ii_flush False s = Inr (- 1, s)) = (\<not> Eof_read s \<and> DANGER s \<le> Next s))
       \<and> (ii_flush False s = Inr (r, s') \<longrightarrow>
            sMark s' = sMark s - (Next s - Next s')
            \<and> pMark s' = map_option (\<lambda>p. p - (Next s - Next s')) (pMark s))
       \<and> (ii_flush True s = Inr (r, s') \<and> left_edge s < MAXLEN \<and> \<not> Eof_read s \<longrightarrow>
            sMark s' = Next s' \<and> pMark s' = Some (Next s'))"
proof -
  have h: "0 \<le> left_edge s" "sMark s \<le> Next s" "End_buf s \<le> END"
    using assms by (simp_all add: marks_ok_def)
  have bytes: "(\<forall>i. shift_of force s \<le> i \<and> i < End_buf s \<longrightarrow>
                 Start_buf s' (i - (Next s - Next s')) = Start_buf s i
                 \<and> i - (Next s - Next s') < End_buf s')
            \<and> End_buf s - (Next s - Next s') \<le> End_buf s'"
    if f: "ii_flush force s = Inr (r, s')"
  proof -
    have e: "End_buf s - (Next s - Next s') \<le> End_buf s'"
      using f by (rule flush_End_ge)
    have b: "\<forall>i. shift_of force s \<le> i \<and> i < End_buf s \<longrightarrow>
                 Start_buf s' (i - (Next s - Next s')) = Start_buf s i"
      using flush_effect[OF h f] by (rule conjunct1)
    show ?thesis
    proof (intro conjI allI impI)
      fix i assume i: "shift_of force s \<le> i \<and> i < End_buf s"
      show "Start_buf s' (i - (Next s - Next s')) = Start_buf s i"
        using b i by blast
      show "i - (Next s - Next s') < End_buf s'"
        using e i by linarith
    next
      show "End_buf s - (Next s - Next s') \<le> End_buf s'" by (rule e)
    qed
  qed
  have value_of: "ii_flush False s =
              Inr (if NO_MORE_CHARS s then 0
                   else if Eof_read s \<or> Next s < DANGER s then 1 else - 1, s)"
    if "left_edge s < MAXLEN"
    using that by (auto simp add: ii_flush_unfold)
  have refuse: "(ii_flush False s = Inr (- 1, s)) = (\<not> Eof_read s \<and> DANGER s \<le> Next s)"
    if "left_edge s < MAXLEN"
    unfolding value_of[OF that] by (auto simp: NO_MORE_CHARS_def)
  have keep: "sMark s' = sMark s - (Next s - Next s')
            \<and> pMark s' = map_option (\<lambda>p. p - (Next s - Next s')) (pMark s)"
    if "ii_flush False s = Inr (r, s')"
    using flush_effect[OF h that] by simp
  have reset: "sMark s' = Next s' \<and> pMark s' = Some (Next s')"
    if "ii_flush True s = Inr (r, s') \<and> left_edge s < MAXLEN \<and> \<not> Eof_read s"
    using flush_effect[OF h, of True r s'] that by simp
  show ?thesis
    apply (intro conjI impI)
    subgoal using bytes by blast
    subgoal using bytes by blast
    subgoal by (rule value_of)
    subgoal by (rule refuse)
    subgoal using keep by blast
    subgoal using keep by blast
    subgoal using reset by blast
    subgoal using reset by blast
    done
qed

text \<open>
  The theorem at the first \<open>ii_advance\<close> of a process, whose flush moves the seeded
  newline from the last byte of the buffer to the first; at a state with both marks
  set, where the flush refuses unless it is forced and the forced flush gives up the
  marks and keeps the two bytes from the cursor on; and in \<open>null_state\<close>, outside the
  danger zone, where the flush that is not forced returns \<open>1\<close>.
\<close>

theorem flush_keeps_marked_bytes_witness:
  "marks_ok seeded_state \<and> marks_ok midway_state \<and> marks_ok null_state
   \<and> (\<exists>s'. ii_flush False seeded_state = Inr (1, s') \<and> Next s' = 0
          \<and> Start_buf s' 0 = Start_buf seeded_state 3103 \<and> 0 < End_buf s')
   \<and> ii_flush False midway_state = Inr (- 1, midway_state)
   \<and> (\<exists>s'. ii_flush True midway_state = Inr (1, s') \<and> Next s' = 0 \<and> sMark s' = 0
          \<and> pMark s' = Some 0 \<and> Start_buf s' 0 = Start_buf midway_state 3
          \<and> Start_buf s' 1 = Start_buf midway_state 4 \<and> 1 < End_buf s')
   \<and> ii_flush False null_state = Inr (1, null_state)"
proof -
  have h: "marks_ok seeded_state"
    by (simp add: seeded_state_def fresh_state_def init_state_def seed_newline_def
        marks_ok_def left_edge_def const_defs)
  have "\<exists>s'. ii_flush False seeded_state = Inr (1, s') \<and> Next s' = 0"
    by (simp add: seeded_state_def state_defs eval_defs const_defs)
  then obtain s1 where f1: "ii_flush False seeded_state = Inr (1, s1)" and n1: "Next s1 = 0"
    by (elim exE conjE)
  have v1: "shift_of False seeded_state = 3103" "Next seeded_state = 3103"
    "End_buf seeded_state = 3104"
    by (simp_all add: seeded_state_def fresh_state_def init_state_def seed_newline_def
        shift_of_def left_edge_def const_defs)
  note t1 = flush_keeps_marked_bytes[OF h, of False 1 s1, THEN conjunct1, rule_format,
      OF f1, THEN conjunct1, rule_format, of 3103]
  have b1: "Start_buf s1 0 = Start_buf seeded_state 3103 \<and> 0 < End_buf s1"
    using t1 by (simp add: v1 n1)
  have g: "marks_ok midway_state"
    by (simp add: midway_state_def marks_ok_def left_edge_def const_defs)
  have v3: "shift_of True midway_state = 3" "Next midway_state = 3" "End_buf midway_state = 5"
    "left_edge midway_state < MAXLEN" "\<not> Eof_read midway_state"
    "DANGER midway_state \<le> Next midway_state" "\<not> NO_MORE_CHARS midway_state"
    by (simp_all add: midway_state_def shift_of_def left_edge_def DANGER_def NO_MORE_CHARS_def
        const_defs)
  have f2: "ii_flush False midway_state = Inr (- 1, midway_state)"
    using flush_keeps_marked_bytes[OF g, of False 0 midway_state, THEN conjunct2,
        THEN conjunct1, rule_format, OF v3(4)] v3(5,6,7)
    by simp
  have "\<exists>s'. ii_flush True midway_state = Inr (1, s') \<and> Next s' = 0"
    by (simp add: midway_state_def eval_defs const_defs)
  then obtain s3 where f3: "ii_flush True midway_state = Inr (1, s3)" and n3: "Next s3 = 0"
    by (elim exE conjE)
  note t3 = flush_keeps_marked_bytes[OF g, of True 1 s3]
  note a3 = t3[THEN conjunct1, rule_format, OF f3, THEN conjunct1, rule_format]
  have b3: "Start_buf s3 0 = Start_buf midway_state 3" "Start_buf s3 1 = Start_buf midway_state 4"
    "1 < End_buf s3"
    using a3[of 3] a3[of 4] by (simp_all add: v3 n3)
  have m3: "sMark s3 = Next s3 \<and> pMark s3 = Some (Next s3)"
    using t3[THEN conjunct2, THEN conjunct2, THEN conjunct2, THEN conjunct2] f3 v3(4,5) by simp
  have k: "marks_ok null_state"
    by (simp add: state_defs marks_ok_def left_edge_def const_defs)
  have v4: "left_edge null_state < MAXLEN" "\<not> NO_MORE_CHARS null_state"
    "\<not> Eof_read null_state" "Next null_state < DANGER null_state"
    by (simp_all add: state_defs left_edge_def DANGER_def NO_MORE_CHARS_def const_defs)
  have f4: "ii_flush False null_state = Inr (1, null_state)"
    using flush_keeps_marked_bytes[OF k, of False 0 null_state, THEN conjunct2,
        THEN conjunct1, rule_format, OF v4(1)] v4(2,3,4)
    by simp
  show ?thesis
    apply (intro conjI)
    subgoal by (rule h)
    subgoal by (rule g)
    subgoal by (rule k)
    subgoal using f1 n1 b1 by (intro exI[of _ s1]) simp
    subgoal by (rule f2)
    subgoal using f3 n3 b3 m3 by (intro exI[of _ s3]) simp
    subgoal by (rule f4)
    done
qed

text \<open>
  C1 as stated fails in its middle part: a flush that is not forced and finds the left
  edge closer than \<open>MAXLEN\<close> to the start does not always refuse. In the reachable
  \<open>null_state\<close> the left edge is at offset 0 and the cursor is outside the danger zone:
  the flush returns \<open>1\<close>. In the reachable \<open>short_state\<close> with the end of file read the
  left edge is at offset 0 and the cursor is inside the danger zone, with five bytes
  still unread: the flush returns \<open>1\<close> as well. Both leave the state as it is.
\<close>

theorem nonforced_flush_near_origin_need_not_refuse:
  "reachable null_state \<and> left_edge null_state < MAXLEN
   \<and> ii_flush False null_state = Inr (1, null_state)
   \<and> reachable (short_state\<lparr>Eof_read := True\<rparr>)
   \<and> left_edge (short_state\<lparr>Eof_read := True\<rparr>) < MAXLEN
   \<and> DANGER (short_state\<lparr>Eof_read := True\<rparr>) \<le> Next (short_state\<lparr>Eof_read := True\<rparr>)
   \<and> ii_flush False (short_state\<lparr>Eof_read := True\<rparr>) = Inr (1, short_state\<lparr>Eof_read := True\<rparr>)"
  using concrete_states_reachable(3) eof_marked_state_reachable
  by (simp add: state_defs eval_defs const_defs left_edge_def)

section \<open>Claim C2: end of input and the fatal path\<close>

text \<open>
  C2. The claim is that an exhausted stream is reported through the return value and
  never through \<open>ferr\<close>. The code does the opposite: \<open>ii_fillbuf\<close> marks the end of file
  and returns the \<open>0\<close> that \<open>read\<close> gave it, and \<open>ii_flush\<close> takes that \<open>0\<close> for a full
  buffer and calls \<open>ferr\<close>. On an empty standard input the first \<open>ii_advance\<close> of the
  process ends it; so does the forced flush after the five bytes of \<open>short_stream\<close>
  have been read. \<open>exhausted_stream_flush_is_fatal\<close> above is the general fact.
\<close>

theorem end_of_stream_is_fatal:
  "ii_advance (fresh_state []) = Inl Flush_buffer_full
   \<and> ii_flushbuf short_state = Inl Flush_buffer_full"
  by (simp add: state_defs eval_defs const_defs ii_flushbuf_def)

section \<open>Claim C3: what a stream switch resets\<close>

text \<open>
  C3, as amended. After \<open>ii_newfile\<close> has returned a descriptor other than \<open>-1\<close>, the line
  number and the line of the end mark are 1, the cursor, both lexeme marks and the end
  of the data are at \<open>END\<close>, the end-of-file flag is clear and the new descriptor is the
  input file. The previous-lexeme mark with its line and length, the saved terminator
  character, the buffer and \<open>been_called\<close> are as they were: \<open>ii_newfile\<close> does not touch
  them.
\<close>

theorem newfile_resets_position:
  assumes "ii_newfile filename s = (fd, s')" and "fd \<noteq> - 1"
  shows "Lineno s' = 1 \<and> Mline s' = 1 \<and> Next s' = END \<and> sMark s' = END \<and> eMark s' = END
       \<and> End_buf s' = END \<and> Eof_read s' = False \<and> Input_file s' = fd
       \<and> pMark s' = pMark s \<and> pLineno s' = pLineno s \<and> pLength s' = pLength s
       \<and> Termchar s' = Termchar s \<and> Start_buf s' = Start_buf s
       \<and> been_called s' = been_called s"
  using ii_newfile_fields[OF assms] .

text \<open>The theorem at the switch to \<open>next.c\<close> with a previous mark and a terminator set.\<close>

theorem newfile_resets_position_witness:
  "fst (ii_newfile (Some ''next.c'') marked_state) \<noteq> - 1
   \<and> Lineno (snd (ii_newfile (Some ''next.c'') marked_state)) = 1
   \<and> Next (snd (ii_newfile (Some ''next.c'') marked_state)) = 3104
   \<and> End_buf (snd (ii_newfile (Some ''next.c'') marked_state)) = 3104
   \<and> Eof_read (snd (ii_newfile (Some ''next.c'') marked_state)) = False
   \<and> pMark (snd (ii_newfile (Some ''next.c'') marked_state)) = pMark marked_state"
proof -
  have fd: "fst (ii_newfile (Some ''next.c'') marked_state) \<noteq> - 1"
    by (simp add: more_defs state_defs eval_defs const_defs)
  show ?thesis
    using newfile_resets_position[OF prod.collapse[symmetric] fd] fd by (simp add: END_val)
qed

text \<open>
  C3 as stated fails. After the first \<open>ii_advance\<close> on \<open>short_stream\<close>, \<open>ii_mark_prev\<close>
  and \<open>ii_term\<close>, the switch to \<open>next.c\<close> succeeds with descriptor 3 and leaves \<open>pMark\<close> at
  offset 0, \<open>pLineno\<close> at 1 and the saved terminator character \<open>a\<close> in place.
\<close>

theorem newfile_keeps_prev_mark_and_terminator:
  "fst (ii_newfile (Some ''next.c'') marked_state) = 3
   \<and> pMark (snd (ii_newfile (Some ''next.c'') marked_state)) = Some 0
   \<and> pLineno (snd (ii_newfile (Some ''next.c'') marked_state)) = 1
   \<and> Termchar (snd (ii_newfile (Some ''next.c'') marked_state)) = 97"
  by (simp add: more_defs state_defs eval_defs const_defs)

section \<open>Claim C4: pushback and advancing again\<close>

text \<open>
  C4, as amended. Let \<open>k\<close> calls of \<open>ii_advance\<close>, each of which consumed a byte, lead
  from a state with the buffer invariants in which \<open>ii_advance\<close> has been called before
  to the state \<open>s\<close>. Then \<open>ii_pusback(k)\<close> followed by \<open>k\<close> calls of \<open>ii_advance\<close>, none of
  which returns \<open>-1\<close>, returns exactly the values the first \<open>k\<close> calls returned, and
  leaves \<open>Lineno\<close> at its value before the pushback less the number of zero bytes among
  them: \<open>ii_pusback\<close> decrements for a zero byte as for a newline, \<open>ii_advance\<close> increments
  for a newline only. That each of the first \<open>k\<close> calls consumed a byte is the
  hypothesis that the cursor has moved \<open>k\<close> further from \<open>sMark\<close>.
\<close>

theorem pushback_replay:
  assumes "been_called s0" and "buffer_ok s0"
    and "advances k s0 = Inr (cs, s)"
    and "Next s - sMark s = Next s0 - sMark s0 + int k"
    and "ii_pusback (int k) s = (r, s1)"
    and "advances k s1 = Inr (cs', s2)"
    and "- 1 \<notin> set cs'"
  shows "cs' = cs \<and> Lineno s2 = Lineno s - int (count_list cs 0)"
proof -
  from run_behind[OF assms(3,1,2)] obtain D where
    b: "been_called s" "buffer_ok s" "length cs = k" "slid D s0 s"
      "Next s = Next s0 - D + int k \<longrightarrow> (\<forall>j<k. cs ! j = uint (Start_buf s (Next s0 - D + int j)))"
    by blast
  have "sMark s = sMark s0 - D" using b(4) by (simp add: slid_def)
  then have nx: "Next s = Next s0 - D + int k" using assms(4) by simp
  have cs: "cs ! j = uint (Start_buf s (Next s - int k + int j))" if "j < k" for j
    using b(5) nx that by simp
  have csmap: "cs = map uint (crossed s (int k))"
    using cs b(3) by (intro nth_equalityI) (simp_all add: crossed_def)
  have k: "0 \<le> int k" "int k \<le> Next s - sMark s"
    using assms(2,4) by (simp_all add: buffer_ok_def)
  note p = pusback_ok[OF k b(2) assms(5)]
  have room: "Next s1 + int k \<le> End_buf s1"
    using p(3,5) b(2) by (simp add: buffer_ok_def)
  have bc: "been_called s1" using p(2) b(1) by simp
  from run_ahead[OF assms(6) bc p(1) room assms(7)] have
    a: "length cs' = k" "\<forall>j<k. cs' ! j = uint (Start_buf s1 (Next s1 + int j))"
    by simp_all
  have same: "cs' = cs"
  proof (intro nth_equalityI)
    show "length cs' = length cs" using a(1) b(3) by simp
    fix j assume "j < length cs'"
    then have j: "j < k" using a(1) by simp
    have "Next s1 + int j = Next s - int k + int j" using p(3) by simp
    then show "cs' ! j = cs ! j"
      using a(2) j cs[OF j] p(4) by simp
  qed
  have "Lineno s2 = Lineno s1 + int (count_list cs' 10)"
    using run_Lineno[OF assms(6) bc p(1)] .
  then have "Lineno s2 = Lineno s - int (count_list cs 0)"
    using p(6) by (simp add: same line_breaks_count csmap[symmetric])
  then show ?thesis using same by simp
qed

text \<open>
  The theorem on \<open>null_stream\<close>: from the state after the first \<open>ii_advance\<close>, two calls
  return the zero byte and the newline and lead to \<open>null_state\<close>; after \<open>ii_pusback(2)\<close>
  two calls return the same two values, and \<open>Lineno\<close> is one less than before the
  pushback.
\<close>

theorem pushback_replay_witness:
  "been_called (null_state\<lparr>Next := 1, Lineno := 1\<rparr>)
   \<and> buffer_ok (null_state\<lparr>Next := 1, Lineno := 1\<rparr>)
   \<and> advances 2 (null_state\<lparr>Next := 1, Lineno := 1\<rparr>) = Inr ([0, 10], null_state)
   \<and> ii_pusback 2 null_state = (1, null_state\<lparr>Next := 1, Lineno := 0\<rparr>)
   \<and> advances 2 (null_state\<lparr>Next := 1, Lineno := 0\<rparr>) = Inr ([0, 10], null_state\<lparr>Lineno := 1\<rparr>)
   \<and> Lineno (null_state\<lparr>Lineno := 1\<rparr>) = Lineno null_state - int (count_list [0, 10 :: int] 0)"
proof -
  let ?s0 = "null_state\<lparr>Next := 1, Lineno := 1\<rparr>"
  let ?s1 = "null_state\<lparr>Next := 1, Lineno := 0\<rparr>"
  let ?s2 = "null_state\<lparr>Lineno := 1\<rparr>"
  have h1: "been_called ?s0" by (simp add: state_defs)
  have h2: "buffer_ok ?s0" by (simp add: state_defs buffer_ok_def left_edge_def const_defs)
  have h3: "advances 2 ?s0 = Inr ([0, 10], null_state)"
    by (simp add: advances_unfold state_defs eval_defs const_defs)
  have h4: "Next null_state - sMark null_state = Next ?s0 - sMark ?s0 + int 2"
    by (simp add: state_defs)
  have h5: "ii_pusback (int 2) null_state = (1, ?s1)"
    by (simp add: state_defs ii_pusback_def pusback_loop.simps store_bytes_apply Let_def)
  have h6: "advances 2 ?s1 = Inr ([0, 10], ?s2)"
    by (simp add: advances_unfold state_defs eval_defs const_defs)
  have h7: "- 1 \<notin> set [0, 10 :: int]" by simp
  from pushback_replay[OF h1 h2 h3 h4 h5 h6 h7]
  have "Lineno ?s2 = Lineno null_state - int (count_list [0, 10 :: int] 0)" by simp
  then show ?thesis
    using h1 h2 h3 h5 h6 by simp
qed

text \<open>
  C4 as stated fails. In \<open>null_state\<close>, reached by three calls of \<open>ii_advance\<close> that
  returned the seeded newline, the zero byte and the newline, the cursor is three bytes
  past \<open>sMark\<close> and \<open>Lineno\<close> is 2. \<open>ii_pusback(2)\<close> and two calls of \<open>ii_advance\<close> return
  the zero byte and the newline again, but leave \<open>Lineno\<close> at 1.
\<close>

theorem pushback_over_null_byte_loses_line:
  "advances 2 (snd (ii_pusback 2 null_state)) = Inr ([0, 10], null_state\<lparr>Lineno := 1\<rparr>)
   \<and> Lineno null_state = 2 \<and> 2 \<le> Next null_state - sMark null_state"
  by (simp add: advances_unfold state_defs eval_defs const_defs ii_pusback_def pusback_loop.simps)

section \<open>Claim C5: lookahead and the next advance\<close>

text \<open>
  C5, as amended. \<open>ii_look(1)\<close> returns \<open>EOF\<close> when the end of file has been read and the
  cursor is at or beyond the end of the data. It returns \<open>0\<close> when the cursor is there
  and the end of file has not been read, whatever the next \<open>ii_advance\<close> will return.
  When the cursor is before the end of the data, in a state with the buffer invariants
  in which \<open>ii_advance\<close> has been called before, and the next \<open>ii_advance\<close> returns a byte
  rather than \<open>-1\<close>, \<open>ii_look(1)\<close> returns that byte. \<open>ii_look\<close> assigns to no variable of
  the input system: in the model it yields a value and no state.
\<close>

theorem look_agrees_with_advance:
  "(Eof_read s \<and> End_buf s \<le> Next s \<longrightarrow> ii_look 1 s = EOF)
   \<and> (\<not> Eof_read s \<and> End_buf s \<le> Next s \<longrightarrow> ii_look 1 s = 0)
   \<and> (been_called s \<and> buffer_ok s \<and> Next s < End_buf s \<and> ii_advance s = Inr (c, s') \<and> c \<noteq> - 1
        \<longrightarrow> ii_look 1 s = c)"
proof -
  have third: "ii_look 1 s = c"
    if h: "been_called s" "buffer_ok s" "Next s < End_buf s" "ii_advance s = Inr (c, s')" "c \<noteq> - 1"
  proof -
    have nmc: "\<not> NO_MORE_CHARS s" using h(3) by (simp add: NO_MORE_CHARS_def)
    from advance_step[OF h(1,2,4)] nmc h(5) obtain d where
      d: "slid d s s'" "Next s' = Next s - d + 1" "c = uint (Start_buf s' (Next s' - 1))"
      by blast
    have pos: "0 \<le> left_edge s" "left_edge s \<le> sMark s" "sMark s \<le> Next s"
      using h(2) left_edge_le[of s] by (simp_all add: buffer_ok_def)
    then have "d \<le> Next s" using d(1) by (simp add: slid_def)
    then have "Start_buf s' (Next s - d) = Start_buf s (Next s)"
      using d(1) h(3) by (simp add: slid_def)
    moreover have "Next s' - 1 = Next s - d" using d(2) by simp
    ultimately have "c = uint (Start_buf s (Next s))" using d(3) by simp
    moreover have "ii_look 1 s = uint (Start_buf s (Next s))"
      using pos h(3) by (simp add: ii_look_def)
    ultimately show ?thesis by simp
  qed
  show ?thesis
    using third by (auto simp: ii_look_def)
qed

text \<open>
  The theorem in \<open>null_state\<close>, where the next byte is \<open>a\<close>, and in \<open>drained_state\<close>, at
  the end of input.
\<close>

theorem look_agrees_with_advance_witness:
  "been_called null_state \<and> buffer_ok null_state \<and> Next null_state < End_buf null_state
   \<and> ii_advance null_state = Inr (97, null_state\<lparr>Next := 4\<rparr>)
   \<and> ii_look 1 null_state = 97
   \<and> Eof_read drained_state \<and> End_buf drained_state \<le> Next drained_state
   \<and> ii_look 1 drained_state = EOF"
proof -
  have h: "been_called null_state" "buffer_ok null_state" "Next null_state < End_buf null_state"
    by (simp_all add: state_defs buffer_ok_def left_edge_def const_defs)
  have a: "ii_advance null_state = Inr (97, null_state\<lparr>Next := 4\<rparr>)"
    by (simp add: state_defs eval_defs const_defs)
  have e: "Eof_read drained_state" "End_buf drained_state \<le> Next drained_state"
    by (simp_all add: state_defs)
  note t1 = look_agrees_with_advance[of null_state 97 "null_state\<lparr>Next := 4\<rparr>"]
  note t2 = look_agrees_with_advance[of drained_state 0 drained_state]
  have "ii_look 1 null_state = 97" using t1 h a by simp
  moreover have "ii_look 1 drained_state = EOF" using t2 e by simp
  ultimately show ?thesis using h a e by simp
qed

text \<open>
  C5 as stated fails. Right after the switch to \<open>next.c\<close> the cursor is at the end of
  the data, which is the end of the buffer, and the end of file has not been read.
  \<open>ii_look(1)\<close> returns \<open>0\<close>; the next \<open>ii_advance\<close> fills the buffer and returns \<open>x\<close>.
\<close>

theorem look_at_buffer_end_is_not_next_byte:
  "ii_look 1 reopened_state = 0 \<and> map_sum id fst (ii_advance reopened_state) = Inr 120
   \<and> Next reopened_state = End_buf reopened_state \<and> End_buf reopened_state = END
   \<and> Eof_read reopened_state = False"
  by (simp add: more_defs state_defs eval_defs const_defs ii_look_def)

section \<open>Claim C6: the first advance and the stream ab, newline, cd\<close>

text \<open>
  C6. The first \<open>ii_advance\<close> of a process does seed a newline in the last byte of the
  buffer and decrement \<open>Lineno\<close>; it returns that newline, and \<open>Lineno\<close> is 1 afterwards.
  But on the stream of the claim the bytes \<open>a\<close>, \<open>b\<close>, newline, \<open>c\<close>, \<open>d\<close> and the end of
  input never follow: the second call returns \<open>-1\<close>, and so does every later one, the
  state no longer changing. The five bytes are fewer than the read asked for, but
  \<open>ii_fillbuf\<close> marks the end of file only when \<open>read\<close> returns \<open>0\<close>, so the cursor counts
  as inside the danger zone of a stream still open and \<open>ii_flush\<close> refuses for lack of
  room. Were the end of file marked, the five bytes and then \<open>0\<close> would follow
  (\<open>drained_state_reached\<close>).
\<close>

theorem short_stream_second_advance_refused:
  "advances 7 (fresh_state short_stream) =
     Inr ([10, - 1, - 1, - 1, - 1, - 1, - 1], short_state)
   \<and> Lineno short_state = 1"
  by (simp add: advances_unfold state_defs eval_defs const_defs)

section \<open>Claim C7: the contract of pushback\<close>

text \<open>
  C7. For every \<open>n \<ge> 0\<close>, in every state whose cursor is not before \<open>sMark\<close> (every
  reachable state, by \<open>reachable_marks_ok\<close>): \<open>ii_pusback(n)\<close> moves \<open>Next\<close> back by
  \<open>min(n, Next - sMark)\<close> and so not past \<open>sMark\<close>; it decrements \<open>Lineno\<close> once for each
  byte it moves over that is a newline or zero; if \<open>Next\<close> ends before \<open>eMark\<close>, then
  \<open>eMark\<close> becomes \<open>Next\<close> and \<open>Mline\<close> becomes \<open>Lineno\<close>, otherwise both stay; and the
  value returned is 1 when \<open>Next\<close> ends strictly after \<open>sMark\<close> and 0 otherwise. \<open>sMark\<close>,
  the buffer and the end of the data stay as they were.
\<close>

theorem pusback_contract:
  assumes "0 \<le> n" and "sMark s \<le> Next s" and "ii_pusback n s = (r, s')"
  shows "Next s' = Next s - min n (Next s - sMark s)
       \<and> sMark s' \<le> Next s'
       \<and> Lineno s' = Lineno s - line_breaks (crossed s (min n (Next s - sMark s)))
       \<and> (if Next s' < eMark s
          then eMark s' = Next s' \<and> Mline s' = Lineno s'
          else eMark s' = eMark s \<and> Mline s' = Mline s)
       \<and> (r = 1 \<or> r = 0) \<and> (r = 1) = (sMark s' < Next s')
       \<and> sMark s' = sMark s \<and> Start_buf s' = Start_buf s \<and> End_buf s' = End_buf s"
  using assms(3) unfolding ii_pusback_eq[OF assms(1,2)]
  by (auto simp: Let_def split: if_splits)

text \<open>
  The theorem in \<open>null_state\<close> after \<open>ii_mark_end\<close>: \<open>ii_pusback(2)\<close> moves over the
  newline and the zero byte, takes \<open>Lineno\<close> from 2 to 0, pulls \<open>eMark\<close> and \<open>Mline\<close> back
  and returns 1.
\<close>

theorem pusback_contract_witness:
  "sMark (snd (ii_mark_end null_state)) \<le> Next (snd (ii_mark_end null_state))
   \<and> crossed (snd (ii_mark_end null_state)) 2 = [0, 10]
   \<and> fst (ii_pusback 2 (snd (ii_mark_end null_state))) = 1
   \<and> Next (snd (ii_pusback 2 (snd (ii_mark_end null_state)))) = 1
   \<and> Lineno (snd (ii_pusback 2 (snd (ii_mark_end null_state)))) = 0
   \<and> eMark (snd (ii_pusback 2 (snd (ii_mark_end null_state)))) = 1
   \<and> Mline (snd (ii_pusback 2 (snd (ii_mark_end null_state)))) = 0"
proof -
  let ?s = "snd (ii_mark_end null_state)"
  have h: "(0::int) \<le> 2" "sMark ?s \<le> Next ?s"
    by (simp_all add: state_defs ii_mark_end_def)
  have v: "Next ?s = 3" "sMark ?s = 0" "eMark ?s = 3" "Lineno ?s = 2"
    by (simp_all add: state_defs ii_mark_end_def)
  have cr: "crossed ?s 2 = [0, 10]"
    by (simp add: crossed_def state_defs ii_mark_end_def store_bytes_apply upt_rec)
  have lb: "line_breaks [0, 10] = 2" by (simp add: line_breaks_def)
  note t = pusback_contract[OF h prod.collapse[symmetric]]
  show ?thesis
    using t h(2) by (simp add: v cr lb)
qed

section \<open>Claim C8: the values advance and lookahead return\<close>

text \<open>
  C8, as amended. \<open>ii_advance\<close> returns a byte value between 0 and 255 or \<open>-1\<close>, and
  \<open>-1\<close> only when its flush has refused. \<open>ii_look\<close> returns a byte value between 0 and
  255 or \<open>EOF\<close>, which is \<open>-1\<close>, and \<open>EOF\<close> exactly when the end of file has been read
  and the position asked for is at or beyond the end of the data; for any other
  position outside the data it returns \<open>0\<close>. At end of input,
  once \<open>ii_advance\<close> has been called before, \<open>ii_advance\<close> returns \<open>0\<close>, the value of a
  null byte, and leaves the state alone, while \<open>ii_look(1)\<close> returns \<open>EOF\<close>: the two
  functions report the end of input with different values, and only that of
  \<open>ii_look\<close> is out of band.
\<close>

theorem return_values:
  "(ii_advance s = Inr (c, s') \<longrightarrow> c = - 1 \<or> (0 \<le> c \<and> c \<le> 255))
   \<and> (ii_advance s = Inr (- 1, s') \<longrightarrow> ii_flush False s' = Inr (- 1, s'))
   \<and> (ii_look n s = EOF \<or> (0 \<le> ii_look n s \<and> ii_look n s \<le> 255))
   \<and> (ii_look n s = EOF) = (Eof_read s \<and> End_buf s \<le> Next s + (n - 1))
   \<and> ((Next s + (n - 1) < 0 \<or> End_buf s \<le> Next s + (n - 1))
        \<and> \<not> (Eof_read s \<and> End_buf s \<le> Next s + (n - 1)) \<longrightarrow> ii_look n s = 0)
   \<and> EOF = - 1
   \<and> (been_called s \<and> NO_MORE_CHARS s \<longrightarrow> ii_advance s = Inr (0, s) \<and> ii_look 1 s = EOF)"
proof -
  let ?t = "if \<not> been_called s then seed_newline s else s"
  have bc: "been_called ?t" by (simp add: seed_newline_def)
  have adv: "ii_advance s = ii_advance ?t"
    using bc by (simp add: ii_advance_def)
  have cons: "0 \<le> fst (consume u) \<and> fst (consume u) \<le> 255" for u
    using uint_byte_range[of "Start_buf u (Next u)"] by (simp add: consume_def Let_def)
  have range: "c = - 1 \<or> (0 \<le> c \<and> c \<le> 255)" if a: "ii_advance s = Inr (c, s')"
  proof (cases "ii_flush False ?t")
    case (Inl e)
    then show ?thesis
      using a cons[of ?t] bc unfolding adv ii_advance_called[OF bc]
      by (auto split: if_splits)
  next
    case (Inr p)
    obtain r s1 where p: "p = (r, s1)" by (cases p)
    show ?thesis
      using a cons[of ?t] cons[of s1] bc Inr unfolding adv ii_advance_called[OF bc] p
      by (auto split: if_splits)
  qed
  have refused: "ii_flush False s' = Inr (- 1, s')" if a: "ii_advance s = Inr (- 1, s')"
  proof (cases "ii_flush False ?t")
    case (Inl e)
    then show ?thesis
      using a cons[of ?t] bc unfolding adv ii_advance_called[OF bc]
      by (auto split: if_splits)
  next
    case (Inr p)
    obtain r s1 where p: "p = (r, s1)" by (cases p)
    have fl: "ii_flush False ?t = Inr (r, s1)" using Inr p by simp
    have "r < 0 \<and> s1 = s'"
      using a cons[of ?t] cons[of s1] bc fl unfolding adv ii_advance_called[OF bc]
      by (auto split: if_splits)
    then show ?thesis
      using ii_flush_refused[OF fl] fl by simp
  qed
  have look: "ii_look n s = EOF \<or> (0 \<le> ii_look n s \<and> ii_look n s \<le> 255)"
    using uint_byte_range[of "Start_buf s (Next s + (n - 1))"]
    by (simp add: ii_look_def Let_def)
  have ne: "uint w \<noteq> - 1" for w :: byte
    using uint_byte_range[of w] by linarith
  have lookeof: "(ii_look n s = EOF) = (Eof_read s \<and> End_buf s \<le> Next s + (n - 1))"
    using ne by (auto simp add: ii_look_def Let_def EOF_def)
  have eoi: "ii_advance s = Inr (0, s) \<and> ii_look 1 s = EOF" if "been_called s \<and> NO_MORE_CHARS s"
    using that by (simp add: ii_advance_called ii_look_def NO_MORE_CHARS_def)
  have nodata: "ii_look n s = 0"
    if "(Next s + (n - 1) < 0 \<or> End_buf s \<le> Next s + (n - 1))
        \<and> \<not> (Eof_read s \<and> End_buf s \<le> Next s + (n - 1))"
    using that by (auto simp add: ii_look_def Let_def)
  show ?thesis
    using range refused look lookeof nodata eoi by (simp add: EOF_def)
qed

text \<open>
  The theorem in \<open>drained_state\<close>, at the end of input, and in \<open>short_state\<close>, where the
  flush refuses.
\<close>

theorem return_values_witness:
  "been_called drained_state \<and> NO_MORE_CHARS drained_state
   \<and> ii_advance drained_state = Inr (0, drained_state) \<and> ii_look 1 drained_state = EOF
   \<and> ii_advance short_state = Inr (- 1, short_state)
   \<and> ii_flush False short_state = Inr (- 1, short_state)"
proof -
  have h: "been_called drained_state" "NO_MORE_CHARS drained_state"
    by (simp_all add: state_defs NO_MORE_CHARS_def)
  have a: "ii_advance short_state = Inr (- 1, short_state)"
    by (simp add: state_defs eval_defs const_defs)
  note t1 = return_values[of drained_state 0 drained_state 1]
  note t2 = return_values[of short_state "- 1" short_state 1]
  have "ii_advance drained_state = Inr (0, drained_state) \<and> ii_look 1 drained_state = EOF"
    using t1 h by blast
  moreover have "ii_flush False short_state = Inr (- 1, short_state)"
    using t2 a by blast
  ultimately show ?thesis using h a by simp
qed

text \<open>
  C8 as stated fails. In \<open>drained_state\<close> the end of file has been read and the cursor
  is at the end of the data. \<open>ii_advance\<close> returns \<open>0\<close>, a value a byte can have;
  \<open>ii_look(1)\<close> returns \<open>-1\<close>.
\<close>

theorem end_of_input_values_differ:
  "NO_MORE_CHARS drained_state \<and> ii_advance drained_state = Inr (0, drained_state)
   \<and> ii_look 1 drained_state = - 1"
  by (simp add: state_defs eval_defs const_defs ii_look_def)

section \<open>Claim C9: term and unterm\<close>

text \<open>
  C9. In every state: \<open>ii_term\<close> leaves the cursor where it is and the byte there reads
  as 0 afterwards; \<open>ii_unterm\<close> after \<open>ii_term\<close> gives the byte at the cursor the value it
  had before \<open>ii_term\<close>, for every such value, zero included, restores the whole buffer
  with it and leaves no character saved; \<open>ii_unterm\<close> with no character saved changes
  nothing; and \<open>ii_unterm\<close> twice is \<open>ii_unterm\<close> once.
\<close>

theorem term_unterm:
  "Next (ii_term s) = Next s
   \<and> Start_buf (ii_term s) (Next s) = 0
   \<and> Start_buf (ii_unterm (ii_term s)) (Next s) = Start_buf s (Next s)
   \<and> Start_buf (ii_unterm (ii_term s)) = Start_buf s
   \<and> Termchar (ii_unterm (ii_term s)) = 0
   \<and> (Termchar s = 0 \<longrightarrow> ii_unterm s = s)
   \<and> ii_unterm (ii_unterm s) = ii_unterm s"
proof -
  have triv: "(Start_buf s)(Next s := Start_buf s (Next s)) = Start_buf s"
    by (rule fun_upd_triv)
  have "Start_buf (ii_unterm (ii_term s)) = Start_buf s"
  proof (cases "Start_buf s (Next s) = 0")
    case True
    then show ?thesis
      using triv by (simp add: ii_term_def ii_unterm_def Let_def)
  next
    case False
    then show ?thesis
      by (simp add: ii_term_def ii_unterm_def Let_def uint_eq_0)
  qed
  then show ?thesis
    by (simp add: ii_term_def ii_unterm_def Let_def)
qed

text \<open>The theorem in \<open>short_state\<close>, where the byte at the cursor is \<open>a\<close> and none is saved.\<close>

theorem term_unterm_witness:
  "Termchar short_state = 0 \<and> ii_unterm short_state = short_state
   \<and> Start_buf short_state (Next short_state) = 97
   \<and> Termchar (ii_term short_state) = 97
   \<and> Start_buf (ii_term short_state) (Next short_state) = 0
   \<and> Start_buf (ii_unterm (ii_term short_state)) (Next short_state) = 97"
proof -
  have h: "Termchar short_state = 0" "Start_buf short_state (Next short_state) = 97"
    "Termchar (ii_term short_state) = 97"
    by (simp_all add: state_defs ii_term_def store_bytes_apply Let_def)
  note t = term_unterm[of short_state]
  show ?thesis using t h by simp
qed

section \<open>Claim C10: the first advance on a second stream\<close>

text \<open>
  C10, as amended. The newline is seeded once per process, not once per stream. If
  \<open>ii_advance\<close> has been called before and \<open>ii_newfile\<close> switches to a stream that is not
  empty, then \<open>Lineno\<close> is 1 after the switch and, provided \<open>pMark\<close> is unset or at least
  \<open>MAXLEN\<close> from the start of the buffer, the first \<open>ii_advance\<close> on the new stream returns
  the first byte of that stream: no newline is seeded and \<open>Lineno\<close> is not decremented,
  so that it is 1 afterwards, or 2 when that byte is itself a newline. \<open>ii_newfile\<close>
  does not clear \<open>pMark\<close>; keeping it up to date is left to the caller.
\<close>

theorem newfile_then_advance:
  assumes "been_called s" and "ii_newfile filename s = (fd, s1)" and "fd \<noteq> - 1"
    and "case pMark s of None \<Rightarrow> True | Some p \<Rightarrow> MAXLEN \<le> p"
    and "os_data s1 fd = Some (b # bs)"
  shows "Lineno s1 = 1
       \<and> (\<exists>s2. ii_advance s1 = Inr (uint b, s2) \<and> Lineno s2 = (if b = 10 then 2 else 1))"
proof -
  note n = ii_newfile_fields[OF assms(2,3)]
  have bc: "been_called s1" using n assms(1) by simp
  let ?d = "left_edge s1"
  have d: "MAXLEN \<le> ?d" "?d \<le> END"
    using assms(4) n by (auto simp: left_edge_def MAXLEN_def END_val split: option.splits)
  have nmc: "\<not> NO_MORE_CHARS s1" "\<not> Eof_read s1" "DANGER s1 \<le> Next s1"
    using n by (simp_all add: NO_MORE_CHARS_def DANGER_def MAXLOOK_def)
  have fl: "ii_flush False s1 = compact ?d s1"
    using nmc d by (simp add: ii_flush_unfold shift_of_def)
  let ?s2 = "s1\<lparr>Start_buf := memcpy (Start_buf s1) 0 ?d (size_t_of_int (End_buf s1 - ?d))\<rparr>"
  have "os_data ?s2 (Input_file ?s2) = Some (b # bs)"
    using assms(5) n by simp
  moreover have "0 \<le> End_buf s1 - ?d" "End_buf s1 - ?d \<le> END - MAXLEN"
    using d n by simp_all
  ultimately obtain got s3 where
    f: "ii_fillbuf (End_buf s1 - ?d) ?s2 = Inr (got, s3)" "got \<noteq> 0"
      "Start_buf s3 (End_buf s1 - ?d) = b"
    using ii_fillbuf_first_byte[of ?s2 b bs "End_buf s1 - ?d"] by blast
  have c: "compact ?d s1 = Inr (1, rebase ?d s3)"
    using f(1,2) by (simp add: compact_def)
  note fr = ii_fillbuf_frame[OF f(1)]
  have nx: "Next (rebase ?d s3) = End_buf s1 - ?d" "Lineno (rebase ?d s3) = 1"
    "Start_buf (rebase ?d s3) = Start_buf s3"
    using fr n by (simp_all add: rebase_def)
  have adv: "ii_advance s1 = Inr (consume (rebase ?d s3))"
    using nmc fl c by (simp add: ii_advance_called[OF bc])
  obtain c2 s2 where cs: "consume (rebase ?d s3) = (c2, s2)"
    by (cases "consume (rebase ?d s3)")
  note cf = consume_fields[OF cs]
  have "c2 = uint b" using cf(1) nx f(3) by simp
  moreover have "Lineno s2 = (if b = 10 then 2 else 1)"
    using cf(3) nx(2) \<open>c2 = uint b\<close> by (simp add: uint_eq_10)
  ultimately show ?thesis
    using adv cs n by simp
qed

text \<open>
  The theorem at the switch from \<open>short_state\<close>, where \<open>pMark\<close> is unset, to \<open>next.c\<close>:
  the first \<open>ii_advance\<close> returns \<open>x\<close> and \<open>Lineno\<close> stays 1.
\<close>

theorem newfile_then_advance_witness:
  "been_called short_state \<and> ii_newfile (Some ''next.c'') short_state = (3, reopened_state)
   \<and> pMark short_state = None \<and> os_data reopened_state 3 = Some [120, 121, 10]
   \<and> Lineno reopened_state = 1
   \<and> (\<exists>s2. ii_advance reopened_state = Inr (120, s2) \<and> Lineno s2 = 1)"
proof -
  have h: "been_called short_state" "ii_newfile (Some ''next.c'') short_state = (3, reopened_state)"
    "(3::int) \<noteq> - 1" "case pMark short_state of None \<Rightarrow> True | Some p \<Rightarrow> MAXLEN \<le> p"
    "os_data reopened_state 3 = Some (120 # [121, 10])" "pMark short_state = None"
    by (simp_all add: more_defs state_defs const_defs)
  note t = newfile_then_advance[OF h(1-5)]
  show ?thesis using t h by simp
qed

text \<open>
  C10 as stated fails. After the first \<open>ii_advance\<close> on \<open>short_stream\<close> and \<open>ii_mark_prev\<close>,
  which puts \<open>pMark\<close> at offset 0, the switch to \<open>next.c\<close> succeeds with descriptor 3 and
  the three bytes of the file wait to be read. The first \<open>ii_advance\<close> on the new stream
  returns \<open>-1\<close> and leaves the state as it is: the stale \<open>pMark\<close> is the left edge, and
  the flush refuses.
\<close>

theorem stale_prev_mark_blocks_new_stream:
  "been_called short_state
   \<and> fst (ii_newfile (Some ''next.c'') (snd (ii_mark_prev short_state))) = 3
   \<and> os_data stale_state 3 = Some [120, 121, 10]
   \<and> ii_advance stale_state = Inr (- 1, stale_state)"
  by (simp add: more_defs state_defs eval_defs const_defs)

end
